theory Spec2Isabelle
  imports Main "HOL-Library.Word"
begin

unbundle bit_operations_syntax

section \<open>Machine types and constants\<close>

text \<open>
  The firmware runs on an 8-bit AVR: \<open>uint8_t\<close> is an 8-bit word, \<open>uint16_t\<close> a 16-bit
  word (\<open>int\<close> is 16 bits wide there, so 16-bit unsigned arithmetic wraps modulo \<open>2^16\<close>).
\<close>

type_synonym u8 = "8 word"
type_synonym u16 = "16 word"

text \<open>dot\_matrix.h\<close>

definition VISIBLE :: u8 where "VISIBLE = 0"
definition HIDDEN :: u8 where "HIDDEN = 1"

definition ORANGE :: u8 where "ORANGE = 0xF"
definition YELLOW :: u8 where "YELLOW = 0x7"
definition BLACK :: u8 where "BLACK = 0x0"

definition RED_MSB :: u8 where "RED_MSB = 0x8"
definition RED_LSB :: u8 where "RED_LSB = 0x4"
definition GREEN_MSB :: u8 where "GREEN_MSB = 0x2"
definition GREEN_LSB :: u8 where "GREEN_LSB = 0x1"

definition NUM_BLOCKS_X :: u8 where "NUM_BLOCKS_X = 2"
definition NUM_BLOCKS_Y :: u8 where "NUM_BLOCKS_Y = 1"
definition COLS_PER_BLOCK :: u8 where "COLS_PER_BLOCK = 8"
definition ROWS_PER_BLOCK :: u8 where "ROWS_PER_BLOCK = 8"
definition NUM_BLOCKS :: u8 where "NUM_BLOCKS = NUM_BLOCKS_X * NUM_BLOCKS_Y"
definition NUM_PIXCOLS :: u8 where "NUM_PIXCOLS = NUM_BLOCKS * COLS_PER_BLOCK"
definition DIM_X :: u8 where "DIM_X = NUM_BLOCKS_X * COLS_PER_BLOCK"
definition DIM_Y :: u8 where "DIM_Y = NUM_BLOCKS_Y * ROWS_PER_BLOCK"
definition MAX_BRIGHTNESS :: u8 where "MAX_BRIGHTNESS = 3"
definition DEFAULT_COLOR :: u8 where "DEFAULT_COLOR = ORANGE"

text \<open>Bits\_of\_Time.cpp\<close>

definition GRAINS_TOTAL :: u8 where "GRAINS_TOTAL = 54"
definition SIM_SPEED :: u16 where "SIM_SPEED = 10"
definition DOWN :: u8 where "DOWN = 0"
definition UP :: u8 where "UP = 1"
definition UPPER :: u8 where "UPPER = 0"
definition LOWER :: u8 where "LOWER = 1"
definition SET :: u8 where "SET = 0"
definition RUN :: u8 where "RUN = 1"
definition ALARM :: u8 where "ALARM = 2"
definition POLYNOMIAL :: u8 where "POLYNOMIAL = 0x0E"
definition RANDOM_SEED :: u8 where "RANDOM_SEED = 120"

lemmas dm_consts =
  NUM_BLOCKS_X_def NUM_BLOCKS_Y_def COLS_PER_BLOCK_def ROWS_PER_BLOCK_def NUM_BLOCKS_def
  NUM_PIXCOLS_def DIM_X_def DIM_Y_def MAX_BRIGHTNESS_def

lemmas color_consts =
  ORANGE_def YELLOW_def BLACK_def RED_MSB_def RED_LSB_def GREEN_MSB_def GREEN_LSB_def

section \<open>The dot matrix display (class \<open>DotMatrix\<close>)\<close>

text \<open>
  A pixel column holds the least and the most significant brightness bits of its 8 bi-colour
  pixels. The static members of the class form the record \<open>DotMatrix\<close>: the array
  \<open>screen\<close> is a list of pixel columns, and the three pointers into it (\<open>scr_vis\<close>,
  \<open>scr_hid\<close>, \<open>scr_wrk\<close>) are the indices of the elements they point to.
\<close>

record pixcol_t =
  lsb :: u16
  msb :: u16

record DotMatrix =
  screen :: "pixcol_t list"
  scr_vis :: nat
  scr_hid :: nat
  scr_wrk :: nat
  offset :: u8
  column :: u8
  bright_cnt :: u8
  color :: u8

definition pixcol_mask :: "u16 list" where
  "pixcol_mask = [0x0001, 0x0004, 0x0010, 0x0040, 0x0100, 0x0400, 0x1000, 0x4000]"

text \<open>\<open>DotMatrix::setPixel\<close>: set a pixel of the working screen; a no-op out of range.\<close>

definition setPixel :: "u8 \<Rightarrow> u8 \<Rightarrow> u8 \<Rightarrow> DotMatrix \<Rightarrow> DotMatrix" where
  "setPixel x y col d =
    (let mask_green = pixcol_mask ! unat (y AND (ROWS_PER_BLOCK - 1));
         mask_red = push_bit 1 mask_green
     in if x \<ge> DIM_X then d
        else if y \<ge> DIM_Y then d
        else
          let y1 = y div ROWS_PER_BLOCK;
              x1 = x + y1 * DIM_X;
              i = scr_wrk d + unat x1;
              pix0 = msb (screen d ! i) AND NOT (mask_red OR mask_green);
              pix1 = (if col AND 0x2 \<noteq> 0 then pix0 OR mask_green else pix0);
              pix2 = (if col AND 0x8 \<noteq> 0 then pix1 OR mask_red else pix1);
              scr1 = (screen d)[i := (screen d ! i)\<lparr>msb := pix2\<rparr>];
              pix3 = lsb (scr1 ! i) AND NOT (mask_red OR mask_green);
              pix4 = (if col AND 0x1 \<noteq> 0 then pix3 OR mask_green else pix3);
              pix5 = (if col AND 0x4 \<noteq> 0 then pix4 OR mask_red else pix4);
              scr2 = scr1[i := (scr1 ! i)\<lparr>lsb := pix5\<rparr>]
          in d\<lparr>screen := scr2\<rparr>)"

text \<open>
  \<open>DotMatrix::getPixel\<close>: the colour of a pixel of the visible or of the hidden screen;
  255 when the coordinates are out of range, and 255 for any other screen selector.
\<close>

definition getPixel :: "u8 \<Rightarrow> u8 \<Rightarrow> u8 \<Rightarrow> DotMatrix \<Rightarrow> u8" where
  "getPixel x y vis_hid d =
    (let mask_green = pixcol_mask ! unat (y AND (ROWS_PER_BLOCK - 1));
         mask_red = push_bit 1 mask_green
     in if x \<ge> DIM_X then 255
        else if y \<ge> DIM_Y then 255
        else
          let y1 = y div ROWS_PER_BLOCK;
              x1 = x + y1 * DIM_X
          in if vis_hid = VISIBLE \<or> vis_hid = HIDDEN then
               let scr = (if vis_hid = VISIBLE then scr_vis d else scr_hid d);
                   pc = screen d ! (scr + unat x1);
                   c0 = (0 :: u8);
                   c1 = (if msb pc AND mask_red \<noteq> 0 then c0 OR RED_MSB else c0);
                   c2 = (if msb pc AND mask_green \<noteq> 0 then c1 OR GREEN_MSB else c1);
                   c3 = (if lsb pc AND mask_red \<noteq> 0 then c2 OR RED_LSB else c2);
                   c4 = (if lsb pc AND mask_green \<noteq> 0 then c3 OR GREEN_LSB else c3)
               in c4
             else 255)"

text \<open>\<open>DotMatrix::clearScreen\<close>: the loop over the columns of the working screen.\<close>

function clearScreen_loop :: "u8 \<Rightarrow> DotMatrix \<Rightarrow> DotMatrix" where
  "clearScreen_loop i d =
    (if i < NUM_PIXCOLS then
       clearScreen_loop (i + 1)
         (d\<lparr>screen := (screen d)[scr_wrk d + unat i := \<lparr>lsb = 0, msb = 0\<rparr>]\<rparr>)
     else d)"
  by pat_completeness auto
termination
proof (relation "measure (\<lambda>(i, d). 16 - unat i)")
  show "wf (measure (\<lambda>(i, d). 16 - unat i))" by simp
next
  fix i :: u8 and d :: DotMatrix
  assume "i < NUM_PIXCOLS"
  then have "unat i < 16"
    by (simp add: dm_consts word_less_nat_alt)
  then have "unat (i + 1) = unat i + 1"
    by (simp add: unat_word_ariths)
  with \<open>unat i < 16\<close>
  show "((i + 1, d\<lparr>screen := (screen d)[scr_wrk d + unat i := \<lparr>lsb = 0, msb = 0\<rparr>]\<rparr>), (i, d))
          \<in> measure (\<lambda>(i, d). 16 - unat i)"
    by simp
qed

declare clearScreen_loop.simps [simp del]

definition clearScreen :: "DotMatrix \<Rightarrow> DotMatrix" where
  "clearScreen d = clearScreen_loop 0 d"

text \<open>\<open>DotMatrix::selectScreen\<close>: any selector other than the two screens is ignored.\<close>

definition selectScreen :: "u8 \<Rightarrow> DotMatrix \<Rightarrow> DotMatrix" where
  "selectScreen vis_hid d =
    (if vis_hid = VISIBLE then d\<lparr>scr_wrk := scr_vis d\<rparr>
     else if vis_hid = HIDDEN then d\<lparr>scr_wrk := scr_hid d\<rparr>
     else d)"

text \<open>\<open>DotMatrix::swapScreen\<close>\<close>

definition swapScreen :: "DotMatrix \<Rightarrow> DotMatrix" where
  "swapScreen d =
    (let temp_screen = scr_vis d;
         d1 = d\<lparr>scr_vis := scr_hid d\<rparr>;
         d2 = d1\<lparr>scr_hid := temp_screen\<rparr>
     in if scr_wrk d2 = scr_vis d2 then d2\<lparr>scr_wrk := scr_hid d2\<rparr>
        else d2\<lparr>scr_wrk := scr_vis d2\<rparr>)"

text \<open>
  The static storage before \<open>DotMatrix::init\<close> runs is zero. The array has one screen, or two
  when the macro \<open>ENABLE_HIDDEN_SCREEN\<close> is defined; the macro is the parameter
  \<open>hidden_screen\<close> (the repository leaves it undefined).
\<close>

definition DotMatrix_static :: "bool \<Rightarrow> DotMatrix" where
  "DotMatrix_static hidden_screen =
    \<lparr>screen = replicate (if hidden_screen then 32 else 16) \<lparr>lsb = 0, msb = 0\<rparr>,
     scr_vis = 0, scr_hid = 0, scr_wrk = 0,
     offset = 0, column = 0, bright_cnt = 0, color = 0\<rparr>"

text \<open>\<open>DotMatrix::init\<close> (the port set-up has no effect on the class state).\<close>

definition init :: "bool \<Rightarrow> DotMatrix \<Rightarrow> DotMatrix" where
  "init hidden_screen d =
    (let d1 = (if hidden_screen
               then clearScreen (selectScreen HIDDEN (d\<lparr>scr_hid := unat (NUM_BLOCKS * COLS_PER_BLOCK)\<rparr>))
               else d\<lparr>scr_hid := 0\<rparr>);
         d2 = d1\<lparr>scr_vis := 0\<rparr>;
         d3 = clearScreen (selectScreen VISIBLE d2)
     in d3\<lparr>column := 0, bright_cnt := MAX_BRIGHTNESS, color := DEFAULT_COLOR\<rparr>)"

text \<open>
  \<open>DotMatrix::update\<close>: one column of every block is shifted out. The word handed to
  \<open>shift_out\<close> is computed from the two planes of the column and the brightness counter;
  that computation is \<open>emit_word\<close>. The model returns the words in the order they are
  shifted out, together with the new state.
\<close>

definition emit_word :: "u16 \<Rightarrow> u16 \<Rightarrow> u8 \<Rightarrow> u16" where
  "emit_word br_msb br_lsb bcnt =
    (if bcnt AND 1 \<noteq> 0 then br_msb AND br_lsb
     else if bcnt = 0 then br_msb OR br_lsb
     else br_msb)"

function update_loop :: "u8 \<Rightarrow> u8 \<Rightarrow> DotMatrix \<Rightarrow> u16 list \<Rightarrow> u16 list" where
  "update_loop b c d out =
    (if b < NUM_BLOCKS then
       let scr = screen d ! (scr_vis d + unat c);
           br_msb = msb scr;
           br_lsb = lsb scr;
           c1 = c - COLS_PER_BLOCK;
           c2 = (if c1 \<ge> NUM_PIXCOLS then c1 + NUM_PIXCOLS else c1)
       in update_loop (b + 1) c2 d (out @ [emit_word br_msb br_lsb (bright_cnt d)])
     else out)"
  by pat_completeness auto
termination
proof (relation "measure (\<lambda>(b, c, d, out). 2 - unat b)")
  show "wf (measure (\<lambda>(b, c, d, out). 2 - unat b))" by simp
next
  fix b c :: u8 and d :: DotMatrix and out :: "u16 list" and x xa xb xc xd
  assume "b < NUM_BLOCKS"
  then have "unat b < 2"
    by (simp add: dm_consts word_less_nat_alt)
  then have "unat (b + 1) = unat b + 1"
    by (simp add: unat_word_ariths)
  with \<open>unat b < 2\<close>
  show "((b + 1, xd, d, out @ [emit_word xa xb (bright_cnt d)]), (b, c, d, out))
          \<in> measure (\<lambda>(b, c, d, out). 2 - unat b)"
    by simp
qed

declare update_loop.simps [simp del]

definition update :: "DotMatrix \<Rightarrow> u16 list \<times> DotMatrix" where
  "update d =
    (let d1 = (if column d = 0
               then d\<lparr>bright_cnt := (bright_cnt d - 1) AND MAX_BRIGHTNESS\<rparr> else d);
         c0 = NUM_PIXCOLS - COLS_PER_BLOCK;
         c1 = c0 + offset d1;
         c2 = (if c1 \<ge> NUM_PIXCOLS then c1 - NUM_PIXCOLS else c1);
         c3 = c2 + column d1;
         out = update_loop 0 c3 d1 []
     in (out, d1\<lparr>column := (column d1 + 1) AND (COLS_PER_BLOCK - 1)\<rparr>))"

section \<open>The sandglass (Bits\_of\_Time.cpp)\<close>

text \<open>
  The global variables, the \<open>static\<close> locals of \<open>random\<close> (\<open>rnd\<close>) and of
  \<open>simulate_grain\<close> (\<open>side\<close>, \<open>static_counter\<close>), the EEPROM cells and the locals of
  \<open>main\<close> that live across iterations of its loop. The text buffer \<open>screen\<close> of the
  main file is the field \<open>text_screen\<close>.
\<close>

record hourglass =
  dm :: DotMatrix
  timer :: u16
  text_screen :: "u8 list"
  gravity :: u8
  sensor :: u8
  sim_speed :: u16
  rnd :: u8
  side :: u8
  static_counter :: u8
  ee_time_setting :: "u8 list"
  minute :: u8
  quarter :: u8
  mode :: u8
  drop_cycle :: u16
  last_drop :: u16
  animation :: u8

text \<open>
  The interrupt routine \<open>TIM1_COMPA_vect\<close> counts the software timer and refreshes one
  display column; the words it shifts out leave the program.
\<close>

definition isr :: "hourglass \<Rightarrow> hourglass" where
  "isr s = (let s1 = s\<lparr>timer := timer s + 1\<rparr> in s1\<lparr>dm := snd (update (dm s1))\<rparr>)"

text \<open>
  \<open>wait\<close> spins until the timer equals the alarm value. The timer only moves by the
  interrupt routine, so the loop of the model runs the routine until the values agree.
\<close>

function wait_loop :: "u16 \<Rightarrow> hourglass \<Rightarrow> hourglass" where
  "wait_loop alarm s = (if timer s \<noteq> alarm then wait_loop alarm (isr s) else s)"
  by pat_completeness auto
termination
proof (relation "measure (\<lambda>(alarm, s). unat (alarm - timer s))")
  show "wf (measure (\<lambda>(alarm, s). unat (alarm - timer s)))" by simp
next
  fix alarm :: u16 and s :: hourglass
  assume "timer s \<noteq> alarm"
  then have nz: "alarm - timer s \<noteq> 0" by simp
  have "alarm - timer (isr s) = alarm - timer s - 1"
    by (simp add: isr_def Let_def algebra_simps)
  then have "unat (alarm - timer (isr s)) = unat (alarm - timer s - 1)"
    by (rule arg_cong)
  also have "\<dots> = unat (alarm - timer s) - 1"
    using nz by (rule unat_minus_one)
  finally have "unat (alarm - timer (isr s)) = unat (alarm - timer s) - 1" .
  moreover have "unat (alarm - timer s) \<noteq> 0"
    using nz by (simp add: unat_eq_0)
  ultimately show "((alarm, isr s), (alarm, s)) \<in> measure (\<lambda>(alarm, s). unat (alarm - timer s))"
    by simp
qed

declare wait_loop.simps [simp del]

definition wait :: "u16 \<Rightarrow> hourglass \<Rightarrow> hourglass" where
  "wait ms s = wait_loop (timer s + push_bit 1 ms + drop_bit 1 ms) s"

text \<open>\<open>get_pixel\<close> and \<open>set_pixel\<close>: pixels of a bulb, in gravity-relative coordinates.\<close>

definition get_pixel :: "u8 \<Rightarrow> u8 \<Rightarrow> u8 \<Rightarrow> hourglass \<Rightarrow> u8" where
  "get_pixel x y bulb s =
    (if x > 7 \<or> y > 7 then 255
     else
       let x1 = (if gravity s = UP then 7 - x else x);
           y1 = (if gravity s = UP then 7 - y else y);
           x2 = (if bulb XOR gravity s \<noteq> 0 then x1 + 8 else x1)
       in getPixel x2 y1 VISIBLE (dm s))"

definition set_pixel :: "u8 \<Rightarrow> u8 \<Rightarrow> u8 \<Rightarrow> u8 \<Rightarrow> hourglass \<Rightarrow> hourglass" where
  "set_pixel x y bulb col s =
    (if x > 7 \<or> y > 7 then s
     else
       let x1 = (if gravity s = UP then 7 - x else x);
           y1 = (if gravity s = UP then 7 - y else y);
           x2 = (if bulb XOR gravity s \<noteq> 0 then x1 + 8 else x1)
       in s\<lparr>dm := setPixel x2 y1 col (dm s)\<rparr>)"

text \<open>\<open>random\<close>: the pseudo-random number generator with its static state \<open>rnd\<close>.\<close>

definition random :: "u8 \<Rightarrow> hourglass \<Rightarrow> u8 \<times> hourglass" where
  "random seed s =
    (let rnd0 = (if seed \<noteq> 0 then seed else rnd s);
         rnd1 = (if rnd0 AND 0x80 \<noteq> 0
                 then push_bit 1 rnd0 XOR (push_bit 1 POLYNOMIAL OR 1)
                 else push_bit 1 rnd0)
     in (rnd1, s\<lparr>rnd := rnd1\<rparr>))"

text \<open>\<open>fill_bulb\<close>: the inner loop over \<open>x\<close> and the outer loop over \<open>y\<close>.\<close>

function fill_bulb_x :: "u8 \<Rightarrow> u8 \<Rightarrow> u8 \<Rightarrow> hourglass \<Rightarrow> hourglass" where
  "fill_bulb_x x y bulb s =
    (if x < 8 then
       fill_bulb_x (x + 1) y bulb
         (if x + y > 3 then wait 8 (set_pixel x y bulb YELLOW s) else s)
     else s)"
  by pat_completeness auto
termination
proof (relation "measure (\<lambda>(x, y, bulb, s). 8 - unat x)")
  show "wf (measure (\<lambda>(x, y, bulb, s). 8 - unat x))" by simp
next
  fix x y bulb :: u8 and s :: hourglass
  assume "x < 8"
  then have "unat x < 8"
    by (simp add: word_less_nat_alt)
  then have "unat (x + 1) = unat x + 1"
    by (simp add: unat_word_ariths)
  with \<open>unat x < 8\<close>
  show "((x + 1, y, bulb, if 3 < x + y then wait 8 (set_pixel x y bulb YELLOW s) else s),
          (x, y, bulb, s)) \<in> measure (\<lambda>(x, y, bulb, s). 8 - unat x)"
    by simp
qed

declare fill_bulb_x.simps [simp del]

function fill_bulb_y :: "u8 \<Rightarrow> u8 \<Rightarrow> hourglass \<Rightarrow> hourglass" where
  "fill_bulb_y y bulb s =
    (if y < 8 then fill_bulb_y (y + 1) bulb (fill_bulb_x 0 y bulb s) else s)"
  by pat_completeness auto
termination
proof (relation "measure (\<lambda>(y, bulb, s). 8 - unat y)")
  show "wf (measure (\<lambda>(y, bulb, s). 8 - unat y))" by simp
next
  fix y bulb :: u8 and s :: hourglass
  assume "y < 8"
  then have "unat y < 8"
    by (simp add: word_less_nat_alt)
  then have "unat (y + 1) = unat y + 1"
    by (simp add: unat_word_ariths)
  with \<open>unat y < 8\<close>
  show "((y + 1, bulb, fill_bulb_x 0 y bulb s), (y, bulb, s))
          \<in> measure (\<lambda>(y, bulb, s). 8 - unat y)"
    by simp
qed

declare fill_bulb_y.simps [simp del]

definition fill_bulb :: "u8 \<Rightarrow> hourglass \<Rightarrow> hourglass" where
  "fill_bulb bulb s = fill_bulb_y 0 bulb s"

text \<open>\<open>move_grain\<close>: returns 1 and the state after the move, or 0 and the state as it was.\<close>

definition move_grain :: "u8 \<Rightarrow> u8 \<Rightarrow> u8 \<Rightarrow> u8 \<Rightarrow> u8 \<Rightarrow> hourglass \<Rightarrow> u8 \<times> hourglass" where
  "move_grain x1 y1 x2 y2 bulb s =
    (if get_pixel x2 y2 bulb s = BLACK then
       let s1 = set_pixel x1 y1 bulb BLACK s;
           s2 = wait (sim_speed s1) s1;
           s3 = set_pixel x2 y2 bulb ORANGE s2;
           s4 = wait (sim_speed s3) s3
       in (1, s4)
     else (0, s))"

text \<open>\<open>simulate_grain\<close>: the returned value is the value of \<open>static_counter\<close> on return.\<close>

definition simulate_grain :: "u8 \<Rightarrow> u8 \<Rightarrow> u8 \<Rightarrow> hourglass \<Rightarrow> u8 \<times> hourglass" where
  "simulate_grain x0 y0 bulb s =
    (let x = x0 AND 0x07; y = y0 AND 0x07
     in if get_pixel x y bulb s = BLACK then
          (let s1 = s\<lparr>static_counter := static_counter s + 1\<rparr> in (static_counter s1, s1))
        else
          case move_grain x y (x + 1) (y + 1) bulb s of (m1, s1) \<Rightarrow>
          if m1 \<noteq> 0 then
            (let s2 = s1\<lparr>static_counter := 0\<rparr> in (static_counter s2, s2))
          else
            case (if side s1 \<noteq> 0 then
                    (let s2 = s1\<lparr>side := side s1 XOR 1\<rparr>
                     in case move_grain x y (x + 1) y bulb s2 of (m2, s3) \<Rightarrow>
                        if m2 \<noteq> 0 then (True, s3)
                        else case move_grain x y x (y + 1) bulb s3 of (m3, s4) \<Rightarrow>
                             (m3 \<noteq> 0, s4))
                  else
                    (let s2 = s1\<lparr>side := side s1 XOR 1\<rparr>
                     in case move_grain x y x (y + 1) bulb s2 of (m2, s3) \<Rightarrow>
                        if m2 \<noteq> 0 then (True, s3)
                        else case move_grain x y (x + 1) y bulb s3 of (m3, s4) \<Rightarrow>
                             (m3 \<noteq> 0, s4)))
            of (moved, s5) \<Rightarrow>
              if moved then
                (let s6 = s5\<lparr>static_counter := 0\<rparr> in (static_counter s6, s6))
              else
                let s6 = (if bulb = LOWER then s5\<lparr>static_counter := static_counter s5 + 1\<rparr>
                          else s5\<lparr>static_counter := 0\<rparr>);
                    s7 = set_pixel x y bulb YELLOW s6
                in (static_counter s7, s7))"

text \<open>\<open>drop\<close>: move a grain from the exit of the upper bulb to the entry of the lower one.\<close>

definition drop_grain :: "hourglass \<Rightarrow> hourglass" where
  "drop_grain s =
    (if get_pixel 7 7 UPPER s = BLACK then s
     else if get_pixel 0 0 LOWER s = BLACK then
       set_pixel 0 0 LOWER ORANGE (set_pixel 7 7 UPPER BLACK s)
     else s)"

definition reset_hour_glass :: "hourglass \<Rightarrow> hourglass" where
  "reset_hour_glass s = fill_bulb UPPER (s\<lparr>dm := clearScreen (dm s)\<rparr>)"

text \<open>\<open>sense_gravity\<close>; the parameter \<open>pina\<close> is the value read from the port \<open>PINA\<close>.\<close>

definition INCL_PIN :: nat where "INCL_PIN = 3"

definition sense_gravity :: "u8 \<Rightarrow> hourglass \<Rightarrow> u8 \<times> hourglass" where
  "sense_gravity pina s =
    (let sensor_new = pina AND push_bit INCL_PIN 1
     in if sensor_new = sensor s then (0, s)
        else
          let s1 = (if sensor_new \<noteq> 0 then s\<lparr>gravity := DOWN\<rparr> else s\<lparr>gravity := UP\<rparr>)
          in (1, s1\<lparr>sensor := sensor_new\<rparr>))"

definition alarm_signal :: "hourglass \<Rightarrow> hourglass" where
  "alarm_signal s =
    (let s1 = wait 500 s;
         s2 = s1\<lparr>dm := clearScreen (dm s1)\<rparr>
     in s2\<lparr>text_screen :=
           (text_screen s2)[0 := 1, 1 := 0x10 OR ORANGE, 2 := 0x20, 3 := 0x20, 4 := 0]\<rparr>)"

text \<open>
  The body of \<open>if (mode == RUN)\<close> in the loop of \<open>main\<close>, in its two parts: the timed
  drop (\<open>main_run_drop\<close>), then the simulation of one randomly chosen pixel.
\<close>

definition main_run_drop :: "hourglass \<Rightarrow> hourglass" where
  "main_run_drop s =
    (if timer s - last_drop s \<ge> drop_cycle s
     then drop_grain (s\<lparr>last_drop := timer s\<rparr>)
     else s)"

definition main_run_simulate :: "hourglass \<Rightarrow> hourglass" where
  "main_run_simulate s =
    (case random 0 s of (rv, s1) \<Rightarrow>
     case simulate_grain (drop_bit 1 rv) (drop_bit 4 rv) (rv AND 1) s1 of (res, s2) \<Rightarrow>
       if 255 = res then
         let s3 = s2\<lparr>ee_time_setting := (ee_time_setting s2)[0 := minute s2]\<rparr>;
             s4 = s3\<lparr>ee_time_setting := (ee_time_setting s3)[1 := quarter s3]\<rparr>;
             s5 = alarm_signal s4
         in s5\<lparr>mode := ALARM\<rparr>
       else s2)"

definition main_run :: "hourglass \<Rightarrow> hourglass" where
  "main_run s = (if mode s = RUN then main_run_simulate (main_run_drop s) else s)"

text \<open>
  The variables as they are when \<open>main\<close> starts: zero, or their initialiser. The locals of
  \<open>main\<close> have no value yet; \<open>main\<close> assigns them before it reads them.
\<close>

definition hourglass_static :: "bool \<Rightarrow> hourglass" where
  "hourglass_static hidden_screen =
    \<lparr>dm = DotMatrix_static hidden_screen, timer = 0,
     text_screen = [0x20, 0x20, 0x20, 0x20, 0x20, 0x20, 0x20, 0x20, 0x20, 0],
     gravity = 0, sensor = 0, sim_speed = SIM_SPEED, rnd = RANDOM_SEED,
     side = 0, static_counter = 0, ee_time_setting = [0, 2],
     minute = 0, quarter = 0, mode = 0, drop_cycle = 0, last_drop = 0, animation = 0\<rparr>"

section \<open>Auxiliary notions for the proofs\<close>

text \<open>
  The bit masks of \<open>pixcol_mask\<close> are powers of two; \<open>put_bits\<close> is the update of one
  plane done by \<open>setPixel\<close>, \<open>put_row\<close> the update of both planes of a column, and
  \<open>row_colour\<close> the colour that \<open>getPixel\<close> assembles from the two planes.
\<close>

definition bitmask :: "nat \<Rightarrow> u16" where
  "bitmask n = 2 ^ n"

definition put_bits :: "u16 \<Rightarrow> u16 \<Rightarrow> u16 \<Rightarrow> bool \<Rightarrow> bool \<Rightarrow> u16" where
  "put_bits w mg mr g r =
     (let pix0 = w AND NOT (mr OR mg);
          pix1 = (if g then pix0 OR mg else pix0);
          pix2 = (if r then pix1 OR mr else pix1)
      in pix2)"

definition put_row :: "pixcol_t \<Rightarrow> nat \<Rightarrow> u8 \<Rightarrow> pixcol_t" where
  "put_row pc k c =
     \<lparr>lsb = put_bits (lsb pc) (bitmask (2 * k)) (bitmask (2 * k + 1)) (bit c 0) (bit c 2),
      msb = put_bits (msb pc) (bitmask (2 * k)) (bitmask (2 * k + 1)) (bit c 1) (bit c 3)\<rparr>"

definition row_colour :: "pixcol_t \<Rightarrow> nat \<Rightarrow> u8" where
  "row_colour pc k =
     (let c0 = 0;
          c1 = (if bit (msb pc) (2 * k + 1) then c0 OR RED_MSB else c0);
          c2 = (if bit (msb pc) (2 * k) then c1 OR GREEN_MSB else c1);
          c3 = (if bit (lsb pc) (2 * k + 1) then c2 OR RED_LSB else c2);
          c4 = (if bit (lsb pc) (2 * k) then c3 OR GREEN_LSB else c3)
      in c4)"

text \<open>
  The state transition inside \<open>random\<close>, the same transition on natural numbers, its
  orbit, and the values returned by successive calls of \<open>random\<close>: the first call with
  the given seed, all later ones with seed 0.
\<close>

definition lfsr :: "u8 \<Rightarrow> u8" where
  "lfsr v = (if v AND 0x80 \<noteq> 0 then push_bit 1 v XOR (push_bit 1 POLYNOMIAL OR 1) else push_bit 1 v)"

definition lfsr_nat :: "nat \<Rightarrow> nat" where
  "lfsr_nat n = (if 128 \<le> n then ((2 * n) mod 256) XOR 29 else (2 * n) mod 256)"

fun lfsr_orbit :: "nat \<Rightarrow> nat \<Rightarrow> nat list" where
  "lfsr_orbit 0 v = []"
| "lfsr_orbit (Suc n) v = v # lfsr_orbit n (lfsr_nat v)"

fun random_outputs :: "nat \<Rightarrow> u8 \<Rightarrow> hourglass \<Rightarrow> u8 list" where
  "random_outputs 0 seed s = []"
| "random_outputs (Suc n) seed s = (case random seed s of (v, s1) \<Rightarrow> v # random_outputs n 0 s1)"

definition lfsr_pow :: "nat \<Rightarrow> nat" where
  "lfsr_pow k = (lfsr_nat ^^ k) 1"

text \<open>
  The coordinate transform that \<open>get_pixel\<close> and \<open>set_pixel\<close> both apply (gravity,
  bulb-relative coordinates and bulb to a physical pixel), its inverse, and the two grids.
  \<open>pix_inv\<close> holds after \<open>DotMatrix::init\<close> and \<open>sense_gravity\<close>: pixels are read
  from the screen they are written to, that screen lies inside the array, and gravity is one
  of its two values.
\<close>

definition orient :: "u8 \<Rightarrow> u8 \<Rightarrow> u8 \<Rightarrow> u8 \<Rightarrow> u8 \<times> u8" where
  "orient g x y bulb =
    (let x1 = (if g = UP then 7 - x else x);
         y1 = (if g = UP then 7 - y else y);
         x2 = (if bulb XOR g \<noteq> 0 then x1 + 8 else x1)
     in (x2, y1))"

definition unorient :: "u8 \<Rightarrow> u8 \<times> u8 \<Rightarrow> u8 \<times> u8 \<times> u8" where
  "unorient g p =
    (let x1 = fst p AND 7;
         x = (if g = UP then 7 - x1 else x1);
         y = (if g = UP then 7 - snd p else snd p);
         bulb = (if 8 \<le> fst p then g XOR 1 else g)
     in (x, y, bulb))"

definition logical_grid :: "(u8 \<times> u8 \<times> u8) set" where
  "logical_grid = {(x, y, bulb). x < 8 \<and> y < 8 \<and> (bulb = UPPER \<or> bulb = LOWER)}"

definition physical_grid :: "(u8 \<times> u8) set" where
  "physical_grid = {(x, y). x < DIM_X \<and> y < DIM_Y}"

definition pix_inv :: "hourglass \<Rightarrow> bool" where
  "pix_inv s \<longleftrightarrow>
     scr_wrk (dm s) = scr_vis (dm s) \<and> scr_vis (dm s) + 16 \<le> length (screen (dm s)) \<and>
     (gravity s = DOWN \<or> gravity s = UP)"

text \<open>
  \<open>clocked\<close> is a state with the timer and the cursor of the refresh routine replaced: all
  that \<open>wait\<close> changes. \<open>wait_ticks\<close> is the number of timer ticks \<open>wait\<close> waits for.
\<close>

definition clocked :: "u16 \<Rightarrow> u8 \<Rightarrow> u8 \<Rightarrow> hourglass \<Rightarrow> hourglass" where
  "clocked t b c s = s\<lparr>timer := t, dm := (dm s)\<lparr>bright_cnt := b, column := c\<rparr>\<rparr>"

definition wait_ticks :: "u16 \<Rightarrow> u16" where
  "wait_ticks ms = push_bit 1 ms + drop_bit 1 ms"

text \<open>
  The cells of the two bulbs; \<open>same_except ex s s'\<close> says that every cell outside the list
  \<open>ex\<close> has the same colour in \<open>s'\<close> as in \<open>s\<close>, and \<open>grain_moved p q s s'\<close> that in
  \<open>s'\<close> the cell \<open>p\<close> is black, the cell \<open>q\<close> has the colour of a moving grain, and
  all other cells are as in \<open>s\<close>.
\<close>

definition coords :: "u8 list" where
  "coords = [0, 1, 2, 3, 4, 5, 6, 7]"

definition bulb_cells :: "(u8 \<times> u8 \<times> u8) list" where
  "bulb_cells = concat (map (\<lambda>b. concat (map (\<lambda>y. map (\<lambda>x. (x, y, b)) coords) coords)) [UPPER, LOWER])"

definition same_except :: "(u8 \<times> u8 \<times> u8) list \<Rightarrow> hourglass \<Rightarrow> hourglass \<Rightarrow> bool" where
  "same_except ex s s' =
     list_all (\<lambda>(x, y, b). (x, y, b) \<in> set ex \<or> get_pixel x y b s' = get_pixel x y b s) bulb_cells"

definition grain_moved :: "u8 \<times> u8 \<times> u8 \<Rightarrow> u8 \<times> u8 \<times> u8 \<Rightarrow> hourglass \<Rightarrow> hourglass \<Rightarrow> bool" where
  "grain_moved p q s s' \<longleftrightarrow>
     (case p of (x, y, b) \<Rightarrow> get_pixel x y b s' = BLACK) \<and>
     (case q of (x, y, b) \<Rightarrow> get_pixel x y b s' = ORANGE) \<and>
     same_except [p, q] s s'"

text \<open>The state after the two pixel writes and the two pauses of a successful \<open>move_grain\<close>.\<close>

definition moved_grain :: "u8 \<Rightarrow> u8 \<Rightarrow> u8 \<Rightarrow> u8 \<Rightarrow> u8 \<Rightarrow> hourglass \<Rightarrow> hourglass" where
  "moved_grain x1 y1 x2 y2 bulb s =
     wait (sim_speed s) (set_pixel x2 y2 bulb ORANGE (wait (sim_speed s) (set_pixel x1 y1 bulb BLACK s)))"

text \<open>The cells of one bulb, and the number of grains (cells that are not black) in a bulb.\<close>

definition cells :: "(u8 \<times> u8) list" where
  "cells = concat (map (\<lambda>y. map (\<lambda>x. (x, y)) coords) coords)"

definition grains :: "u8 \<Rightarrow> hourglass \<Rightarrow> nat" where
  "grains bulb s = length (filter (\<lambda>(x, y). get_pixel x y bulb s \<noteq> BLACK) cells)"

text \<open>
  A tick of the simulation is a call of \<open>drop\<close> or a call of \<open>simulate_grain\<close> with its
  three arguments; \<open>run_ticks\<close> runs a sequence of them. \<open>total_grains\<close> counts the cells
  of both bulbs that are not black.
\<close>

datatype tick = Drop | Simulate u8 u8 u8

fun tick_ok :: "tick \<Rightarrow> bool" where
  "tick_ok Drop = True"
| "tick_ok (Simulate x y bulb) = (bulb = UPPER \<or> bulb = LOWER)"

fun run_ticks :: "tick list \<Rightarrow> hourglass \<Rightarrow> hourglass" where
  "run_ticks [] s = s"
| "run_ticks (Drop # ts) s = run_ticks ts (drop_grain s)"
| "run_ticks (Simulate x y bulb # ts) s = run_ticks ts (snd (simulate_grain x y bulb s))"

definition total_grains :: "hourglass \<Rightarrow> nat" where
  "total_grains s = length (filter (\<lambda>(x, y, b). get_pixel x y b s \<noteq> BLACK) bulb_cells)"

text \<open>The pixels of the screen, and the number of them that are lit (not black).\<close>

definition screen_cells :: "(u8 \<times> u8) list" where
  "screen_cells =
     concat (map (\<lambda>y. map (\<lambda>x. (x, y)) [0, 1, 2, 3, 4, 5, 6, 7, 8, 9, 10, 11, 12, 13, 14, 15]) coords)"

definition lit_pixels :: "hourglass \<Rightarrow> nat" where
  "lit_pixels s = length (filter (\<lambda>(x, y). getPixel x y VISIBLE (dm s) \<noteq> BLACK) screen_cells)"

text \<open>
  \<open>only_display s s'\<close>: the states differ at most in the timer and the display.
  \<open>boot_state\<close> is the state of \<open>main\<close> after \<open>dm.init()\<close> in the repository's
  configuration, \<open>start_state\<close> the state in which \<open>main\<close> enters its loop when the
  inclination sensor reads high (gravity \<open>DOWN\<close>) and the EEPROM holds its initial
  contents: the upper bulb is filled, the mode is \<open>RUN\<close>, the drop cycle is the table entry for
  30 seconds (2500 * 30 / 54, rounded: 1389 ticks) and the last drop is the current time.
\<close>

definition only_display :: "hourglass \<Rightarrow> hourglass \<Rightarrow> bool" where
  "only_display s s' \<longleftrightarrow> (\<exists>t d. s' = s\<lparr>timer := t, dm := d\<rparr>)"

definition boot_state :: hourglass where
  "boot_state = (hourglass_static False)\<lparr>dm := init False (DotMatrix_static False)\<rparr>"

definition start_state :: hourglass where
  "start_state =
     (let s1 = reset_hour_glass (boot_state\<lparr>mode := RUN\<rparr>)
      in s1\<lparr>drop_cycle := 1389, last_drop := timer s1\<rparr>)"

section \<open>Properties of the display class\<close>

subsection \<open>Small words\<close>

lemma u8_lt8_cases:
  fixes y :: u8
  assumes "y < 8"
  shows "y = 0 \<or> y = 1 \<or> y = 2 \<or> y = 3 \<or> y = 4 \<or> y = 5 \<or> y = 6 \<or> y = 7"
proof -
  from assms have "unat y < 8" by (simp add: word_less_nat_alt)
  then have "unat y = 0 \<or> unat y = 1 \<or> unat y = 2 \<or> unat y = 3 \<or> unat y = 4 \<or> unat y = 5 \<or> unat y = 6 \<or> unat y = 7"
    by arith
  moreover have "\<And>n. unat y = n \<Longrightarrow> y = of_nat n" by auto
  ultimately show ?thesis by fastforce
qed

lemma u8_lt16_cases:
  fixes c :: u8
  assumes "c < 16"
  shows "c = 0 \<or> c = 1 \<or> c = 2 \<or> c = 3 \<or> c = 4 \<or> c = 5 \<or> c = 6 \<or> c = 7
       \<or> c = 8 \<or> c = 9 \<or> c = 10 \<or> c = 11 \<or> c = 12 \<or> c = 13 \<or> c = 14 \<or> c = 15"
proof -
  from assms have "unat c < 16" by (simp add: word_less_nat_alt)
  then have "unat c = 0 \<or> unat c = 1 \<or> unat c = 2 \<or> unat c = 3 \<or> unat c = 4 \<or> unat c = 5 \<or> unat c = 6 \<or> unat c = 7
    \<or> unat c = 8 \<or> unat c = 9 \<or> unat c = 10 \<or> unat c = 11 \<or> unat c = 12 \<or> unat c = 13 \<or> unat c = 14 \<or> unat c = 15"
    by arith
  moreover have "\<And>n. unat c = n \<Longrightarrow> c = of_nat n" by auto
  ultimately show ?thesis by fastforce
qed

lemma pixcol_mask_eq:
  fixes y :: u8
  assumes "y < 8"
  shows "pixcol_mask ! unat (y AND (ROWS_PER_BLOCK - 1)) = bitmask (2 * unat y)"
  using u8_lt8_cases [OF assms]
  by (auto simp: pixcol_mask_def dm_consts bitmask_def)

lemma u8_lt8_div: "(y::u8) < 8 \<Longrightarrow> y div ROWS_PER_BLOCK = 0"
  using u8_lt8_cases [of y] by (auto simp: dm_consts)

lemma test_mask: "n < 16 \<Longrightarrow> (w AND bitmask n \<noteq> 0) = bit w n"
  unfolding bitmask_def by (metis and_exp_eq_0_iff_not_bit)

lemma red_mask: "push_bit 1 (bitmask n) = bitmask (n + 1)"
  by (simp add: bitmask_def push_bit_eq_mult)

lemma bit_bitmask: "bit (bitmask n) j \<longleftrightarrow> j = n \<and> n < 16"
  by (auto simp: bitmask_def bit_simps)

lemma bit_put_bits:
  assumes "a < 16" "b < 16" "a \<noteq> b"
  shows "bit (put_bits w (bitmask a) (bitmask b) g r) n
           = (if n = a then g else if n = b then r else bit w n)"
  using assms by (auto simp: put_bits_def Let_def bit_simps bit_bitmask dest: bit_imp_le_length)

lemma col_bits:
  fixes c :: u8
  shows "(c AND 1 \<noteq> 0) = bit c 0" "(c AND 2 \<noteq> 0) = bit c 1" "(c AND 4 \<noteq> 0) = bit c 2" "(c AND 8 \<noteq> 0) = bit c 3"
  using and_exp_eq_0_iff_not_bit [of c 0] and_exp_eq_0_iff_not_bit [of c 1]
    and_exp_eq_0_iff_not_bit [of c 2] and_exp_eq_0_iff_not_bit [of c 3]
  by simp_all

lemma pixcol_upd: "(pc :: pixcol_t)\<lparr>msb := M, lsb := L\<rparr> = \<lparr>lsb = L, msb = M\<rparr>"
  by (cases pc) simp

lemma setPixel_eq:
  assumes "x < 16" "y < 8" "scr_wrk d + 16 \<le> length (screen d)"
  shows "setPixel x y c d =
    d\<lparr>screen := (screen d)[scr_wrk d + unat x := put_row (screen d ! (scr_wrk d + unat x)) (unat y) c]\<rparr>"
proof -
  have ux: "unat x < 16" using assms(1) by (simp add: word_less_nat_alt)
  have nx: "\<not> DIM_X \<le> x" "\<not> DIM_Y \<le> y" using assms by (auto simp: dm_consts)
  have i: "scr_wrk d + unat x < length (screen d)" using ux assms(3) by simp
  show ?thesis
    unfolding setPixel_def Let_def pixcol_mask_eq [OF assms(2)] u8_lt8_div [OF assms(2)] red_mask
      col_bits put_row_def put_bits_def
    using i nx
    by (simp add: pixcol_upd)
qed

lemma getPixel_eq:
  assumes "x < 16" "y < 8"
  shows "getPixel x y VISIBLE d = row_colour (screen d ! (scr_vis d + unat x)) (unat y)"
    and "getPixel x y HIDDEN d = row_colour (screen d ! (scr_hid d + unat x)) (unat y)"
proof -
  have uy: "2 * unat y < 16" "2 * unat y + 1 < 16" using assms(2) by (simp_all add: word_less_nat_alt)
  have nx: "\<not> DIM_X \<le> x" "\<not> DIM_Y \<le> y" using assms by (auto simp: dm_consts)
  show "getPixel x y VISIBLE d = row_colour (screen d ! (scr_vis d + unat x)) (unat y)"
    unfolding getPixel_def Let_def pixcol_mask_eq [OF assms(2)] u8_lt8_div [OF assms(2)] red_mask
      test_mask [OF uy(1)] test_mask [OF uy(2)] row_colour_def
    using nx by (simp add: VISIBLE_def HIDDEN_def)
  show "getPixel x y HIDDEN d = row_colour (screen d ! (scr_hid d + unat x)) (unat y)"
    unfolding getPixel_def Let_def pixcol_mask_eq [OF assms(2)] u8_lt8_div [OF assms(2)] red_mask
      test_mask [OF uy(1)] test_mask [OF uy(2)] row_colour_def
    using nx by (simp add: VISIBLE_def HIDDEN_def)
qed

lemma row_colour_put_same:
  assumes "k < 8" "c < 16"
  shows "row_colour (put_row pc k c) k = c"
proof -
  have k: "2 * k < 16" "2 * k + 1 < 16" using assms(1) by simp_all
  show ?thesis
    using u8_lt16_cases [OF assms(2)] k
    by (elim disjE) (simp_all add: row_colour_def put_row_def bit_put_bits color_consts Let_def)
qed

lemma row_colour_put_other:
  assumes "k < 8" "k' < 8" "k \<noteq> k'"
  shows "row_colour (put_row pc k c) k' = row_colour pc k'"
proof -
  have "2 * k' \<noteq> 2 * k" "2 * k' \<noteq> 2 * k + 1" "2 * k' + 1 \<noteq> 2 * k" "2 * k' + 1 \<noteq> 2 * k + 1"
    using assms(3) by presburger+
  moreover have k: "2 * k < 16" "2 * k + 1 < 16" using assms(1) by simp_all
  ultimately show ?thesis
    by (simp add: row_colour_def put_row_def bit_put_bits Let_def)
qed


subsection \<open>The refresh routine\<close>

lemma update_loop_unroll:
  "update_loop 0 c d out =
     (let scr = screen d ! (scr_vis d + unat c);
          c1 = c - COLS_PER_BLOCK;
          c2 = (if c1 \<ge> NUM_PIXCOLS then c1 + NUM_PIXCOLS else c1);
          scr' = screen d ! (scr_vis d + unat c2)
      in out @ [emit_word (msb scr) (lsb scr) (bright_cnt d), emit_word (msb scr') (lsb scr') (bright_cnt d)])"
proof -
  have b: "(0 :: u8) < NUM_BLOCKS" "(0 :: u8) + 1 < NUM_BLOCKS" "\<not> (0 :: u8) + 1 + 1 < NUM_BLOCKS"
    by (simp_all add: dm_consts)
  show ?thesis
    by (simp only: update_loop.simps [of 0] update_loop.simps [of "0 + 1"]
        update_loop.simps [of "0 + 1 + 1"] b if_True if_False Let_def append_Cons append_Nil append_assoc)
qed

lemma emit_word_cases:
  "emit_word m l 1 = m AND l" "emit_word m l 3 = m AND l"
  "emit_word m l 0 = m OR l" "emit_word m l 2 = m"
  by (simp_all add: emit_word_def)

lemma emit_word_bits:
  "map (\<lambda>sf. bit (emit_word m l sf) n) [3, 2, 1, 0] =
     (if \<not> bit m n \<and> bit l n then [False, False, False, True]
      else if bit m n \<and> \<not> bit l n then [False, True, False, True]
      else if bit m n \<and> bit l n then [True, True, True, True]
      else [False, False, False, False])"
  by (simp add: emit_word_cases bit_simps)

lemma update_bright_cnt:
  "bright_cnt (snd (update d)) =
     (if column d = 0 then (bright_cnt d - 1) AND MAX_BRIGHTNESS else bright_cnt d)"
  by (simp add: update_def Let_def)

lemma update_emits:
  "fst (update d) =
     (let sf = bright_cnt (snd (update d));
          c = (if NUM_PIXCOLS \<le> NUM_PIXCOLS - COLS_PER_BLOCK + offset d
               then NUM_PIXCOLS - COLS_PER_BLOCK + offset d - NUM_PIXCOLS
               else NUM_PIXCOLS - COLS_PER_BLOCK + offset d) + column d;
          c' = (if NUM_PIXCOLS \<le> c - COLS_PER_BLOCK then c - COLS_PER_BLOCK + NUM_PIXCOLS
                else c - COLS_PER_BLOCK);
          pc = screen d ! (scr_vis d + unat c);
          pc' = screen d ! (scr_vis d + unat c')
      in [emit_word (msb pc) (lsb pc) sf, emit_word (msb pc') (lsb pc') sf])"
  unfolding update_bright_cnt
  unfolding update_def update_loop_unroll Let_def
  by simp

text \<open>
  C5. The word that \<open>update\<close> shifts out for a column is \<open>emit_word\<close> of the column's MSB
  plane, its LSB plane and the brightness (sub-frame) counter: MSB AND LSB in sub-frames 1 and
  3, MSB OR LSB in sub-frame 0, MSB in sub-frame 2. So at every bit position the bits emitted
  in sub-frames 3, 2, 1, 0 are 0,0,0,1 for the plane bits (MSB 0, LSB 1), 0,1,0,1 for (1, 0),
  1,1,1,1 for (1, 1) and 0,0,0,0 for (0, 0). The counter used is the one \<open>update\<close> leaves
  behind: decremented modulo 4 when the column cursor is 0.
\<close>

theorem update_dithering:
  "emit_word m l 1 = m AND l \<and> emit_word m l 3 = m AND l \<and>
   emit_word m l 0 = m OR l \<and> emit_word m l 2 = m \<and>
   map (\<lambda>sf. bit (emit_word m l sf) n) [3, 2, 1, 0] =
     (if \<not> bit m n \<and> bit l n then [False, False, False, True]
      else if bit m n \<and> \<not> bit l n then [False, True, False, True]
      else if bit m n \<and> bit l n then [True, True, True, True]
      else [False, False, False, False]) \<and>
   fst (update d) =
     (let sf = bright_cnt (snd (update d));
          c = (if NUM_PIXCOLS \<le> NUM_PIXCOLS - COLS_PER_BLOCK + offset d
               then NUM_PIXCOLS - COLS_PER_BLOCK + offset d - NUM_PIXCOLS
               else NUM_PIXCOLS - COLS_PER_BLOCK + offset d) + column d;
          c' = (if NUM_PIXCOLS \<le> c - COLS_PER_BLOCK then c - COLS_PER_BLOCK + NUM_PIXCOLS
                else c - COLS_PER_BLOCK);
          pc = screen d ! (scr_vis d + unat c);
          pc' = screen d ! (scr_vis d + unat c')
      in [emit_word (msb pc) (lsb pc) sf, emit_word (msb pc') (lsb pc') sf]) \<and>
   bright_cnt (snd (update d)) =
     (if column d = 0 then (bright_cnt d - 1) AND MAX_BRIGHTNESS else bright_cnt d)"
  using emit_word_cases [of m l] emit_word_bits [of m l n] update_emits [of d] update_bright_cnt [of d]
  by blast

theorem update_dithering_witness:
  "map (\<lambda>sf. bit (emit_word 0 1 sf) 0) [3, 2, 1, 0] = [False, False, False, True] \<and>
   map (\<lambda>sf. bit (emit_word 1 0 sf) 0) [3, 2, 1, 0] = [False, True, False, True] \<and>
   map (\<lambda>sf. bit (emit_word 1 1 sf) 0) [3, 2, 1, 0] = [True, True, True, True] \<and>
   map (\<lambda>sf. bit (emit_word 0 0 sf) 0) [3, 2, 1, 0] = [False, False, False, False]"
  using update_dithering [of 0 1 0] update_dithering [of 1 0 0] update_dithering [of 1 1 0] update_dithering [of 0 0 0]
  by simp

subsection \<open>Reading with an invalid screen selector\<close>

text \<open>
  C10. For every coordinate pair, \<open>getPixel\<close> called with a screen selector other than
  \<open>VISIBLE\<close> and \<open>HIDDEN\<close> returns 255, the value it also returns for coordinates out
  of range. \<open>getPixel\<close> assigns to no static member of the class, so it is a function from
  the state to the colour and leaves the state as it is.
\<close>

theorem getPixel_bad_selector:
  "(vis_hid \<noteq> VISIBLE \<and> vis_hid \<noteq> HIDDEN \<longrightarrow> getPixel x y vis_hid d = 255) \<and>
   (DIM_X \<le> x \<or> DIM_Y \<le> y \<longrightarrow> getPixel x y vis_hid d = 255)"
  by (simp add: getPixel_def Let_def)

theorem getPixel_bad_selector_witness:
  "(2 :: u8) \<noteq> VISIBLE \<and> (2 :: u8) \<noteq> HIDDEN \<and>
   getPixel 3 4 2 (DotMatrix_static False) = 255 \<and>
   DIM_X \<le> 16 \<and> getPixel 16 4 VISIBLE (DotMatrix_static False) = 255"
  using getPixel_bad_selector [of 2 3 4 "DotMatrix_static False"]
    getPixel_bad_selector [of VISIBLE 16 4 "DotMatrix_static False"]
  by (simp add: VISIBLE_def HIDDEN_def dm_consts)

subsection \<open>Clearing and initialising\<close>

lemma clearScreen_loop_frame:
  "clearScreen_loop i d = d\<lparr>screen := screen (clearScreen_loop i d)\<rparr>"
proof (induction i d rule: clearScreen_loop.induct)
  case (1 i d)
  show ?case
  proof (cases "i < NUM_PIXCOLS")
    case True
    define d1 where "d1 = d\<lparr>screen := (screen d)[scr_wrk d + unat i := \<lparr>lsb = 0, msb = 0\<rparr>]\<rparr>"
    have e: "clearScreen_loop i d = clearScreen_loop (i + 1) d1"
      unfolding d1_def by (subst clearScreen_loop.simps) (simp only: True if_True)
    have "clearScreen_loop (i + 1) d1 = d1\<lparr>screen := screen (clearScreen_loop (i + 1) d1)\<rparr>"
      unfolding d1_def by (rule 1 [OF True])
    also have "\<dots> = d\<lparr>screen := screen (clearScreen_loop (i + 1) d1)\<rparr>"
      by (simp add: d1_def)
    finally show ?thesis
      by (simp only: e)
  next
    case False
    then have "clearScreen_loop i d = d"
      by (subst clearScreen_loop.simps) (simp only: if_False)
    then show ?thesis by simp
  qed
qed

lemma clearScreen_loop_length:
  "length (screen (clearScreen_loop i d)) = length (screen d)"
proof (induction i d rule: clearScreen_loop.induct)
  case (1 i d)
  show ?case
  proof (cases "i < NUM_PIXCOLS")
    case True
    from 1 [OF True] show ?thesis
      by (subst clearScreen_loop.simps) (simp add: True)
  next
    case False
    then show ?thesis
      by (subst clearScreen_loop.simps) simp
  qed
qed

lemma clearScreen_loop_nth:
  assumes "n < length (screen d)"
  shows "screen (clearScreen_loop i d) ! n =
     (if scr_wrk d + unat i \<le> n \<and> n < scr_wrk d + 16 then \<lparr>lsb = 0, msb = 0\<rparr> else screen d ! n)"
  using assms
proof (induction i d rule: clearScreen_loop.induct)
  case (1 i d)
  show ?case
  proof (cases "i < NUM_PIXCOLS")
    case True
    then have u: "unat i < 16" by (simp add: dm_consts word_less_nat_alt)
    then have u1: "unat (i + 1) = unat i + 1" by (simp add: unat_word_ariths)
    from 1(1) [OF True] 1(2) u show ?thesis
      by (subst clearScreen_loop.simps) (auto simp: True u1 nth_list_update)
  next
    case False
    then have "16 \<le> unat i" by (simp add: dm_consts word_less_nat_alt)
    with False show ?thesis
      by (subst clearScreen_loop.simps) auto
  qed
qed

lemma clearScreen_fields [simp]:
  "scr_vis (clearScreen d) = scr_vis d" "scr_hid (clearScreen d) = scr_hid d"
  "scr_wrk (clearScreen d) = scr_wrk d" "offset (clearScreen d) = offset d"
  "column (clearScreen d) = column d" "bright_cnt (clearScreen d) = bright_cnt d"
  "color (clearScreen d) = color d"
  "length (screen (clearScreen d)) = length (screen d)"
proof -
  have e: "clearScreen d = d\<lparr>screen := screen (clearScreen d)\<rparr>"
    unfolding clearScreen_def by (rule clearScreen_loop_frame)
  show "scr_vis (clearScreen d) = scr_vis d" "scr_hid (clearScreen d) = scr_hid d"
    "scr_wrk (clearScreen d) = scr_wrk d" "offset (clearScreen d) = offset d"
    "column (clearScreen d) = column d" "bright_cnt (clearScreen d) = bright_cnt d"
    "color (clearScreen d) = color d"
    by (subst e, simp)+
  show "length (screen (clearScreen d)) = length (screen d)"
    unfolding clearScreen_def by (rule clearScreen_loop_length)
qed

lemma clearScreen_nth:
  "n < length (screen d) \<Longrightarrow> screen (clearScreen d) ! n =
     (if scr_wrk d \<le> n \<and> n < scr_wrk d + 16 then \<lparr>lsb = 0, msb = 0\<rparr> else screen d ! n)"
  unfolding clearScreen_def by (simp add: clearScreen_loop_nth)

lemma init_fields:
  "scr_vis (init h d) = 0" "scr_wrk (init h d) = 0" "scr_hid (init h d) = (if h then 16 else 0)"
  "length (screen (init h d)) = length (screen d)"
  by (simp_all add: init_def Let_def selectScreen_def VISIBLE_def HIDDEN_def dm_consts)

subsection \<open>Writing a pixel and reading it back\<close>

lemma getPixel_setPixel_same:
  assumes "x < 16" "y < 8" "c < 16" "scr_wrk d + 16 \<le> length (screen d)"
  shows "scr_vis d = scr_wrk d \<Longrightarrow> getPixel x y VISIBLE (setPixel x y c d) = c"
    and "scr_hid d = scr_wrk d \<Longrightarrow> getPixel x y HIDDEN (setPixel x y c d) = c"
proof -
  have ux: "unat x < 16" and uy: "unat y < 8"
    using assms(1,2) by (simp_all add: word_less_nat_alt)
  then have i: "scr_wrk d + unat x < length (screen d)" using assms(4) by simp
  show "scr_vis d = scr_wrk d \<Longrightarrow> getPixel x y VISIBLE (setPixel x y c d) = c"
    using i uy assms(3)
    by (simp add: getPixel_eq [OF assms(1,2)] setPixel_eq [OF assms(1,2,4)] row_colour_put_same)
  show "scr_hid d = scr_wrk d \<Longrightarrow> getPixel x y HIDDEN (setPixel x y c d) = c"
    using i uy assms(3)
    by (simp add: getPixel_eq [OF assms(1,2)] setPixel_eq [OF assms(1,2,4)] row_colour_put_same)
qed

text \<open>
  C7. For every coordinate pair in range (\<open>x < 16\<close>, \<open>y < 8\<close>) and each of the 16 colour
  codes \<open>c\<close>, \<open>setPixel(x, y, c)\<close> followed by \<open>getPixel(x, y)\<close> on the buffer that was
  written (the visible one when it is the working screen, the hidden one when that is)
  returns \<open>c\<close>. For coordinates out of range \<open>setPixel\<close> leaves the whole state as it is
  and \<open>getPixel\<close> returns 255. The working screen has to lie inside the array, as it does
  after \<open>init\<close>.
\<close>

theorem setPixel_getPixel_roundtrip:
  "(x < DIM_X \<and> y < DIM_Y \<and> c < 16 \<and> scr_wrk d + 16 \<le> length (screen d) \<longrightarrow>
      (scr_vis d = scr_wrk d \<longrightarrow> getPixel x y VISIBLE (setPixel x y c d) = c) \<and>
      (scr_hid d = scr_wrk d \<longrightarrow> getPixel x y HIDDEN (setPixel x y c d) = c)) \<and>
   (DIM_X \<le> x \<or> DIM_Y \<le> y \<longrightarrow> setPixel x y c d = d \<and> getPixel x y vis_hid d = 255)"
proof -
  have "setPixel x y c d = d \<and> getPixel x y vis_hid d = 255" if "DIM_X \<le> x \<or> DIM_Y \<le> y"
  proof (cases "DIM_X \<le> x")
    case True
    then show ?thesis by (simp add: setPixel_def getPixel_def Let_def)
  next
    case False
    with that have "DIM_Y \<le> y" by simp
    then show ?thesis by (simp add: setPixel_def getPixel_def Let_def)
  qed
  moreover have "(scr_vis d = scr_wrk d \<longrightarrow> getPixel x y VISIBLE (setPixel x y c d) = c) \<and>
      (scr_hid d = scr_wrk d \<longrightarrow> getPixel x y HIDDEN (setPixel x y c d) = c)"
    if "x < DIM_X \<and> y < DIM_Y \<and> c < 16 \<and> scr_wrk d + 16 \<le> length (screen d)"
    using that getPixel_setPixel_same [of x y c d] by (simp add: dm_consts)
  ultimately show ?thesis by blast
qed

theorem setPixel_getPixel_roundtrip_witness:
  "(3 :: u8) < DIM_X \<and> (5 :: u8) < DIM_Y \<and> (9 :: u8) < 16 \<and>
   scr_wrk (init False (DotMatrix_static False)) + 16
      \<le> length (screen (init False (DotMatrix_static False))) \<and>
   scr_vis (init False (DotMatrix_static False)) = scr_wrk (init False (DotMatrix_static False)) \<and>
   scr_hid (init False (DotMatrix_static False)) = scr_wrk (init False (DotMatrix_static False)) \<and>
   getPixel 3 5 VISIBLE (setPixel 3 5 9 (init False (DotMatrix_static False))) = 9 \<and>
   getPixel 3 5 HIDDEN (setPixel 3 5 9 (init False (DotMatrix_static False))) = 9 \<and>
   DIM_X \<le> 16 \<and>
   setPixel 16 5 9 (init False (DotMatrix_static False)) = init False (DotMatrix_static False) \<and>
   getPixel 16 5 VISIBLE (init False (DotMatrix_static False)) = 255"
  using setPixel_getPixel_roundtrip [of 3 5 9 "init False (DotMatrix_static False)"]
    setPixel_getPixel_roundtrip [of 16 5 9 "init False (DotMatrix_static False)" VISIBLE]
  by (simp add: init_fields dm_consts DotMatrix_static_def)

subsection \<open>Swapping the screens\<close>

text \<open>
  C8 (as amended). \<open>swapScreen\<close> exchanges the pointers to the visible and the hidden
  screen and copies no pixel data. The working screen keeps its role, not its buffer: if it was
  the visible screen it is the new visible screen afterwards, if it was the hidden screen it is
  the new hidden screen. With two distinct buffers the buffer that writes go to therefore
  changes to the other one; only when both roles share one buffer (no hidden screen, as the
  repository is configured) does the swap change nothing.
\<close>

theorem swapScreen_roles:
  "scr_vis (swapScreen d) = scr_hid d \<and> scr_hid (swapScreen d) = scr_vis d \<and>
   screen (swapScreen d) = screen d \<and>
   (scr_wrk d = scr_vis d \<longrightarrow> scr_wrk (swapScreen d) = scr_vis (swapScreen d)) \<and>
   (scr_wrk d = scr_hid d \<longrightarrow> scr_wrk (swapScreen d) = scr_hid (swapScreen d)) \<and>
   (scr_vis d \<noteq> scr_hid d \<and> (scr_wrk d = scr_vis d \<or> scr_wrk d = scr_hid d) \<longrightarrow>
      scr_wrk (swapScreen d) \<noteq> scr_wrk d) \<and>
   (scr_vis d = scr_hid d \<and> scr_wrk d = scr_vis d \<longrightarrow> swapScreen d = d)"
  by (auto simp: swapScreen_def Let_def)

theorem swapScreen_roles_witness:
  "scr_vis (selectScreen HIDDEN (init True (DotMatrix_static True))) = 0 \<and>
   scr_hid (selectScreen HIDDEN (init True (DotMatrix_static True))) = 16 \<and>
   scr_wrk (selectScreen HIDDEN (init True (DotMatrix_static True))) = 16 \<and>
   scr_vis (swapScreen (selectScreen HIDDEN (init True (DotMatrix_static True)))) = 16 \<and>
   scr_hid (swapScreen (selectScreen HIDDEN (init True (DotMatrix_static True)))) = 0 \<and>
   scr_wrk (swapScreen (selectScreen HIDDEN (init True (DotMatrix_static True)))) = 0 \<and>
   screen (swapScreen (selectScreen HIDDEN (init True (DotMatrix_static True)))) =
     screen (selectScreen HIDDEN (init True (DotMatrix_static True))) \<and>
   swapScreen (init False (DotMatrix_static False)) = init False (DotMatrix_static False)"
  using swapScreen_roles [of "selectScreen HIDDEN (init True (DotMatrix_static True))"]
    swapScreen_roles [of "init False (DotMatrix_static False)"]
  by (simp add: init_fields selectScreen_def HIDDEN_def VISIBLE_def)

text \<open>
  The claim as stated fails with a hidden screen: after \<open>init\<close> with two screens and
  \<open>selectScreen(HIDDEN)\<close> writes go to the buffer at element 16; after \<open>swapScreen\<close>
  they go to the buffer at element 0.
\<close>

theorem swapScreen_write_target_counterexample:
  "scr_vis (selectScreen HIDDEN (init True (DotMatrix_static True))) = 0 \<and>
   scr_hid (selectScreen HIDDEN (init True (DotMatrix_static True))) = 16 \<and>
   scr_wrk (selectScreen HIDDEN (init True (DotMatrix_static True))) = 16 \<and>
   scr_wrk (swapScreen (selectScreen HIDDEN (init True (DotMatrix_static True)))) = 0 \<and>
   scr_wrk (swapScreen (selectScreen HIDDEN (init True (DotMatrix_static True)))) \<noteq>
     scr_wrk (selectScreen HIDDEN (init True (DotMatrix_static True)))"
  by (simp add: swapScreen_def Let_def init_fields selectScreen_def HIDDEN_def VISIBLE_def)


section \<open>The orientation transform\<close>

lemma get_pixel_orient:
  "get_pixel x y bulb s =
     (if x > 7 \<or> y > 7 then 255
      else getPixel (fst (orient (gravity s) x y bulb)) (snd (orient (gravity s) x y bulb)) VISIBLE (dm s))"
  by (simp add: get_pixel_def orient_def Let_def)

lemma set_pixel_orient:
  "set_pixel x y bulb c s =
     (if x > 7 \<or> y > 7 then s
      else s\<lparr>dm := setPixel (fst (orient (gravity s) x y bulb)) (snd (orient (gravity s) x y bulb)) c (dm s)\<rparr>)"
  by (simp add: set_pixel_def orient_def Let_def)

lemma u8_lt8_facts:
  fixes x :: u8
  assumes "x < 8"
  shows "7 - x < 8" "(x + 8) AND 7 = x" "8 \<le> x + 8" "x + 8 < 16" "x AND 7 = x" "\<not> 8 \<le> x"
    "x < 16" "\<not> 7 < x" "8 \<le> 15 - x" "(15 - x) AND 7 = 7 - x" "15 - x < 16" "7 - (7 - x) = x"
    "(7 - x) AND 7 = 7 - x" "\<not> 8 \<le> 7 - x" "7 - x < 16"
  using u8_lt8_cases [OF assms] by (auto simp: word_le_nat_alt word_less_nat_alt)

lemma u8_lt16_split:
  fixes px :: u8
  assumes "px < 16"
  obtains "px < 8" | x where "x < 8" "px = x + 8"
proof (cases "px < 8")
  case True
  then show ?thesis by (rule that(1))
next
  case False
  have "px - 8 < 8" "px = (px - 8) + 8"
    using u8_lt16_cases [OF assms] False by (auto simp: word_le_nat_alt word_less_nat_alt)
  then show ?thesis by (rule that(2))
qed

lemma unorient_orient:
  assumes "g = DOWN \<or> g = UP" "x < 8" "y < 8" "bulb = UPPER \<or> bulb = LOWER"
  shows "unorient g (orient g x y bulb) = (x, y, bulb)"
proof -
  note f = u8_lt8_facts [OF assms(2)] u8_lt8_facts [OF assms(3)]
  from assms(1,4) show ?thesis
    by (elim disjE) (simp_all add: orient_def unorient_def Let_def UP_def DOWN_def UPPER_def LOWER_def f)
qed

lemma orient_range:
  assumes "g = DOWN \<or> g = UP" "x < 8" "y < 8"
  shows "fst (orient g x y bulb) < 16 \<and> snd (orient g x y bulb) < 8"
proof -
  note f = u8_lt8_facts [OF assms(2)] u8_lt8_facts [OF assms(3)]
  from assms(1) show ?thesis
    by (elim disjE) (simp_all add: orient_def Let_def UP_def DOWN_def f assms(2,3))
qed

lemma orient_unorient:
  assumes "g = DOWN \<or> g = UP" "px < 16" "py < 8"
  shows "(case unorient g (px, py) of (x, y, bulb) \<Rightarrow>
            orient g x y bulb = (px, py) \<and> x < 8 \<and> y < 8 \<and> (bulb = UPPER \<or> bulb = LOWER))"
proof -
  note fy = u8_lt8_facts [OF assms(3)]
  from assms(2) show ?thesis
  proof (cases px rule: u8_lt16_split)
    case 1
    note f = u8_lt8_facts [OF 1] fy
    from assms(1) show ?thesis
      by (elim disjE)
        (simp_all add: orient_def unorient_def Let_def UP_def DOWN_def UPPER_def LOWER_def f 1 assms(3))
  next
    case (2 x)
    note f = u8_lt8_facts [OF 2(1)] fy
    have e: "7 - x + 8 = 15 - x" by simp
    from assms(1) show ?thesis
      by (elim disjE)
        (simp_all add: orient_def unorient_def Let_def UP_def DOWN_def UPPER_def LOWER_def f 2 assms(3) e)
  qed
qed

lemma orient_bij:
  assumes "g = DOWN \<or> g = UP"
  shows "bij_betw (\<lambda>(x, y, bulb). orient g x y bulb) logical_grid physical_grid"
proof (rule bij_betw_byWitness [where f' = "unorient g"])
  show "\<forall>a \<in> logical_grid. unorient g (case a of (x, y, bulb) \<Rightarrow> orient g x y bulb) = a"
    using assms by (auto simp: logical_grid_def unorient_orient)
  show "\<forall>a' \<in> physical_grid. (case unorient g a' of (x, y, bulb) \<Rightarrow> orient g x y bulb) = a'"
    using assms orient_unorient [of g] by (fastforce simp: physical_grid_def dm_consts)
  show "(\<lambda>(x, y, bulb). orient g x y bulb) ` logical_grid \<subseteq> physical_grid"
  proof
    fix p
    assume "p \<in> (\<lambda>(x, y, bulb). orient g x y bulb) ` logical_grid"
    then obtain x y bulb where "x < 8" "y < 8" "p = orient g x y bulb"
      by (auto simp: logical_grid_def)
    with orient_range [OF assms, of x y bulb] show "p \<in> physical_grid"
      by (auto simp: physical_grid_def dm_consts mem_Times_iff)
  qed
  show "unorient g ` physical_grid \<subseteq> logical_grid"
  proof
    fix q
    assume "q \<in> unorient g ` physical_grid"
    then obtain px py where "px < 16" "py < 8" "q = unorient g (px, py)"
      by (auto simp: physical_grid_def dm_consts)
    with orient_unorient [OF assms, of px py] show "q \<in> logical_grid"
      by (cases q) (auto simp: logical_grid_def)
  qed
qed


text \<open>
  C6. For each of the two gravity values the transform applied by \<open>get_pixel\<close> and
  \<open>set_pixel\<close> (flip both axes when gravity is \<open>UP\<close>, then add 8 to \<open>x\<close> when
  \<open>bulb XOR gravity\<close> is nonzero) is a bijection from the logical grid (two bulbs of 8 by 8
  cells) onto the physical grid of 16 by 8 pixels: every image lies in the physical grid and
  distinct cells have distinct images. \<open>get_pixel\<close> and \<open>set_pixel\<close> access exactly the
  pixel the transform names.
\<close>

theorem orientation_bijection:
  assumes "g = DOWN \<or> g = UP"
  shows "bij_betw (\<lambda>(x, y, bulb). orient g x y bulb) logical_grid physical_grid \<and>
         (\<forall>x y bulb c s. gravity s = g \<and> x < 8 \<and> y < 8 \<longrightarrow>
            get_pixel x y bulb s =
              getPixel (fst (orient g x y bulb)) (snd (orient g x y bulb)) VISIBLE (dm s) \<and>
            set_pixel x y bulb c s =
              s\<lparr>dm := setPixel (fst (orient g x y bulb)) (snd (orient g x y bulb)) c (dm s)\<rparr>)"
proof -
  have "get_pixel x y bulb s =
          getPixel (fst (orient g x y bulb)) (snd (orient g x y bulb)) VISIBLE (dm s) \<and>
        set_pixel x y bulb c s =
          s\<lparr>dm := setPixel (fst (orient g x y bulb)) (snd (orient g x y bulb)) c (dm s)\<rparr>"
    if "gravity s = g \<and> x < 8 \<and> y < 8" for x y bulb c s
    using that u8_lt8_facts(8) [of x] u8_lt8_facts(8) [of y]
    by (simp add: get_pixel_orient set_pixel_orient)
  with orient_bij [OF assms] show ?thesis by blast
qed

theorem orientation_bijection_witness:
  "(UP = DOWN \<or> UP = UP) \<and>
   bij_betw (\<lambda>(x, y, bulb). orient UP x y bulb) logical_grid physical_grid \<and>
   orient UP 2 3 LOWER = (5, 4) \<and> orient UP 2 3 UPPER = (13, 4) \<and>
   orient DOWN 2 3 LOWER = (10, 3) \<and> orient DOWN 2 3 UPPER = (2, 3)"
  using orientation_bijection [of UP]
  by (simp add: orient_def Let_def UP_def DOWN_def UPPER_def LOWER_def)

section \<open>Pixels of a bulb\<close>

lemma getPixel_setPixel_other:
  assumes "x < 16" "y < 8" "x' < 16" "y' < 8" "(x', y') \<noteq> (x, y)"
    and "scr_wrk d + 16 \<le> length (screen d)" "scr_vis d = scr_wrk d"
  shows "getPixel x' y' VISIBLE (setPixel x y c d) = getPixel x' y' VISIBLE d"
proof -
  have ux: "unat x < 16" "unat x' < 16" and uy: "unat y < 8" "unat y' < 8"
    using assms(1-4) by (simp_all add: word_less_nat_alt)
  have i: "scr_wrk d + unat x < length (screen d)" using ux assms(6) by simp
  show ?thesis
  proof (cases "x' = x")
    case True
    with assms(5) have "y' \<noteq> y" by simp
    then have "unat y \<noteq> unat y'" by (simp add: word_unat_eq_iff)
    with True i uy assms(1-4) show ?thesis
      by (simp add: getPixel_eq setPixel_eq [OF assms(1,2,6)] assms(7)
          row_colour_put_other)
  next
    case False
    then have "unat x' \<noteq> unat x" by (simp add: word_unat_eq_iff)
    then show ?thesis
      by (simp add: getPixel_eq [OF assms(3,4)] setPixel_eq [OF assms(1,2,6)] assms(7))
  qed
qed

lemma setPixel_fields [simp]:
  "scr_vis (setPixel x y c d) = scr_vis d" "scr_hid (setPixel x y c d) = scr_hid d"
  "scr_wrk (setPixel x y c d) = scr_wrk d" "offset (setPixel x y c d) = offset d"
  "column (setPixel x y c d) = column d" "bright_cnt (setPixel x y c d) = bright_cnt d"
  "color (setPixel x y c d) = color d"
  "length (screen (setPixel x y c d)) = length (screen d)"
  by (simp_all add: setPixel_def Let_def)

lemma orient_inj:
  assumes "g = DOWN \<or> g = UP" "x < 8" "y < 8" "bulb = UPPER \<or> bulb = LOWER"
    "x' < 8" "y' < 8" "bulb' = UPPER \<or> bulb' = LOWER"
    "orient g x y bulb = orient g x' y' bulb'"
  shows "x = x' \<and> y = y' \<and> bulb = bulb'"
proof -
  have "(x, y, bulb) = unorient g (orient g x y bulb)"
    by (rule unorient_orient [OF assms(1-4), symmetric])
  also have "\<dots> = unorient g (orient g x' y' bulb')"
    by (simp only: assms(8))
  also have "\<dots> = (x', y', bulb')"
    by (rule unorient_orient [OF assms(1,5-7)])
  finally show ?thesis by simp
qed

lemma set_pixel_fields [simp]:
  "timer (set_pixel x y bulb c s) = timer s" "gravity (set_pixel x y bulb c s) = gravity s"
  "sensor (set_pixel x y bulb c s) = sensor s" "sim_speed (set_pixel x y bulb c s) = sim_speed s"
  "rnd (set_pixel x y bulb c s) = rnd s" "side (set_pixel x y bulb c s) = side s"
  "static_counter (set_pixel x y bulb c s) = static_counter s"
  "mode (set_pixel x y bulb c s) = mode s" "drop_cycle (set_pixel x y bulb c s) = drop_cycle s"
  "last_drop (set_pixel x y bulb c s) = last_drop s" "minute (set_pixel x y bulb c s) = minute s"
  "quarter (set_pixel x y bulb c s) = quarter s" "animation (set_pixel x y bulb c s) = animation s"
  "text_screen (set_pixel x y bulb c s) = text_screen s"
  "ee_time_setting (set_pixel x y bulb c s) = ee_time_setting s"
  by (simp_all add: set_pixel_def Let_def)

lemma pix_inv_set_pixel [simp]: "pix_inv (set_pixel x y bulb c s) = pix_inv s"
  by (simp add: pix_inv_def set_pixel_orient)

lemma get_pixel_out_of_range: "7 < x \<or> 7 < y \<Longrightarrow> get_pixel x y bulb s = 255"
  by (auto simp: get_pixel_def)

lemma set_pixel_out_of_range: "7 < x \<or> 7 < y \<Longrightarrow> set_pixel x y bulb c s = s"
  by (auto simp: set_pixel_def)

lemma get_set_pixel_same:
  assumes "pix_inv s" "x < 8" "y < 8" "c < 16"
  shows "get_pixel x y bulb (set_pixel x y bulb c s) = c"
proof -
  from assms(1) have g: "gravity s = DOWN \<or> gravity s = UP" by (simp add: pix_inv_def)
  note r = orient_range [OF g assms(2,3), of bulb]
  note f = u8_lt8_facts(8) [OF assms(2)] u8_lt8_facts(8) [OF assms(3)]
  from assms(1) r show ?thesis
    by (simp add: get_pixel_orient set_pixel_orient f pix_inv_def getPixel_setPixel_same assms(4))
qed

lemma get_set_pixel_other:
  assumes "pix_inv s" "x < 8" "y < 8" "bulb = UPPER \<or> bulb = LOWER"
    "x' < 8" "y' < 8" "bulb' = UPPER \<or> bulb' = LOWER" "(x', y', bulb') \<noteq> (x, y, bulb)"
  shows "get_pixel x' y' bulb' (set_pixel x y bulb c s) = get_pixel x' y' bulb' s"
proof -
  from assms(1) have g: "gravity s = DOWN \<or> gravity s = UP" by (simp add: pix_inv_def)
  note r = orient_range [OF g assms(2,3), of bulb] orient_range [OF g assms(5,6), of bulb']
  note f = u8_lt8_facts(8) [OF assms(2)] u8_lt8_facts(8) [OF assms(3)]
    u8_lt8_facts(8) [OF assms(5)] u8_lt8_facts(8) [OF assms(6)]
  have ne: "orient (gravity s) x' y' bulb' \<noteq> orient (gravity s) x y bulb"
    using orient_inj [OF g assms(5-7) assms(2-4)] assms(8) by auto
  then have "(fst (orient (gravity s) x' y' bulb'), snd (orient (gravity s) x' y' bulb'))
      \<noteq> (fst (orient (gravity s) x y bulb), snd (orient (gravity s) x y bulb))"
    by simp
  with assms(1) r show ?thesis
    by (simp add: get_pixel_orient set_pixel_orient f pix_inv_def getPixel_setPixel_other del: prod.collapse)
qed


section \<open>Waiting and moving a grain\<close>

lemma update_frame: "\<exists>b c. snd (update d) = d\<lparr>bright_cnt := b, column := c\<rparr>"
proof (cases "column d = 0")
  case True
  then have "snd (update d) = d\<lparr>bright_cnt := (bright_cnt d - 1) AND MAX_BRIGHTNESS,
      column := (column d + 1) AND (COLS_PER_BLOCK - 1)\<rparr>"
    by (simp add: update_def Let_def)
  then show ?thesis by blast
next
  case False
  then have "snd (update d) = d\<lparr>bright_cnt := bright_cnt d,
      column := (column d + 1) AND (COLS_PER_BLOCK - 1)\<rparr>"
    by (simp add: update_def Let_def)
  then show ?thesis by blast
qed

lemma isr_clocked: "\<exists>b c. isr s = clocked (timer s + 1) b c s"
proof -
  obtain b c where "snd (update (dm s)) = (dm s)\<lparr>bright_cnt := b, column := c\<rparr>"
    using update_frame by blast
  then have "isr s = clocked (timer s + 1) b c s"
    by (simp add: isr_def clocked_def Let_def)
  then show ?thesis by blast
qed

lemma clocked_clocked: "clocked t b c (clocked t' b' c' s) = clocked t b c s"
  by (simp add: clocked_def)

lemma wait_loop_clocked: "\<exists>b c. wait_loop alarm s = clocked alarm b c s"
proof (induction alarm s rule: wait_loop.induct)
  case (1 alarm s)
  show ?case
  proof (cases "timer s \<noteq> alarm")
    case True
    obtain b c where i: "isr s = clocked (timer s + 1) b c s"
      using isr_clocked by blast
    from 1 [OF True] obtain b' c' where "wait_loop alarm (isr s) = clocked alarm b' c' (isr s)"
      by blast
    then have "wait_loop alarm s = clocked alarm b' c' s"
      using True by (subst wait_loop.simps) (simp add: i clocked_clocked)
    then show ?thesis by blast
  next
    case False
    then have "wait_loop alarm s = clocked alarm (bright_cnt (dm s)) (column (dm s)) s"
      by (subst wait_loop.simps) (simp add: clocked_def)
    then show ?thesis by blast
  qed
qed

lemma wait_clocked: "\<exists>b c. wait ms s = clocked (timer s + wait_ticks ms) b c s"
  unfolding wait_def wait_ticks_def by (simp add: wait_loop_clocked add.assoc)

lemma clocked_fields [simp]:
  "timer (clocked t b c s) = t" "gravity (clocked t b c s) = gravity s"
  "sensor (clocked t b c s) = sensor s" "sim_speed (clocked t b c s) = sim_speed s"
  "rnd (clocked t b c s) = rnd s" "side (clocked t b c s) = side s"
  "static_counter (clocked t b c s) = static_counter s"
  "mode (clocked t b c s) = mode s" "drop_cycle (clocked t b c s) = drop_cycle s"
  "last_drop (clocked t b c s) = last_drop s" "minute (clocked t b c s) = minute s"
  "quarter (clocked t b c s) = quarter s" "animation (clocked t b c s) = animation s"
  "text_screen (clocked t b c s) = text_screen s"
  "ee_time_setting (clocked t b c s) = ee_time_setting s"
  "screen (dm (clocked t b c s)) = screen (dm s)" "scr_vis (dm (clocked t b c s)) = scr_vis (dm s)"
  "scr_wrk (dm (clocked t b c s)) = scr_wrk (dm s)" "scr_hid (dm (clocked t b c s)) = scr_hid (dm s)"
  by (simp_all add: clocked_def)

lemma getPixel_clock [simp]:
  "getPixel x y v (d\<lparr>bright_cnt := b, column := c\<rparr>) = getPixel x y v d"
  by (simp add: getPixel_def Let_def)

lemma get_pixel_clocked [simp]: "get_pixel x y bulb (clocked t b c s) = get_pixel x y bulb s"
  by (simp add: get_pixel_def clocked_def Let_def)

lemma pix_inv_clocked [simp]: "pix_inv (clocked t b c s) = pix_inv s"
  by (simp add: pix_inv_def)

lemma wait_fields [simp]:
  "timer (wait ms s) = timer s + wait_ticks ms" "gravity (wait ms s) = gravity s"
  "sensor (wait ms s) = sensor s" "sim_speed (wait ms s) = sim_speed s"
  "rnd (wait ms s) = rnd s" "side (wait ms s) = side s"
  "static_counter (wait ms s) = static_counter s"
  "mode (wait ms s) = mode s" "drop_cycle (wait ms s) = drop_cycle s"
  "last_drop (wait ms s) = last_drop s" "minute (wait ms s) = minute s"
  "quarter (wait ms s) = quarter s" "animation (wait ms s) = animation s"
  "text_screen (wait ms s) = text_screen s"
  "ee_time_setting (wait ms s) = ee_time_setting s"
  "get_pixel x y bulb (wait ms s) = get_pixel x y bulb s"
  "pix_inv (wait ms s) = pix_inv s"
proof -
  obtain b c where e: "wait ms s = clocked (timer s + wait_ticks ms) b c s"
    using wait_clocked by blast
  show "timer (wait ms s) = timer s + wait_ticks ms" "gravity (wait ms s) = gravity s"
  "sensor (wait ms s) = sensor s" "sim_speed (wait ms s) = sim_speed s"
  "rnd (wait ms s) = rnd s" "side (wait ms s) = side s"
  "static_counter (wait ms s) = static_counter s"
  "mode (wait ms s) = mode s" "drop_cycle (wait ms s) = drop_cycle s"
  "last_drop (wait ms s) = last_drop s" "minute (wait ms s) = minute s"
  "quarter (wait ms s) = quarter s" "animation (wait ms s) = animation s"
  "text_screen (wait ms s) = text_screen s"
  "ee_time_setting (wait ms s) = ee_time_setting s"
  "get_pixel x y bulb (wait ms s) = get_pixel x y bulb s"
  "pix_inv (wait ms s) = pix_inv s"
    unfolding e by simp_all
qed


lemma set_coords: "set coords = {x. x < 8}"
proof
  show "set coords \<subseteq> {x. x < 8}" by (simp add: coords_def)
  show "{x. x < 8} \<subseteq> set coords"
  proof
    fix x :: u8
    assume "x \<in> {x. x < 8}"
    then have "x < 8" by simp
    from u8_lt8_cases [OF this] show "x \<in> set coords" by (auto simp: coords_def)
  qed
qed

lemma set_bulb_cells:
  "set bulb_cells = {(x, y, b). x < 8 \<and> y < 8 \<and> (b = UPPER \<or> b = LOWER)}"
  by (auto simp: bulb_cells_def set_coords)

lemma same_except_iff:
  "same_except ex s s' \<longleftrightarrow>
     (\<forall>x y b. x < 8 \<and> y < 8 \<and> (b = UPPER \<or> b = LOWER) \<and> (x, y, b) \<notin> set ex
        \<longrightarrow> get_pixel x y b s' = get_pixel x y b s)"
  by (auto simp: same_except_def list_all_iff set_bulb_cells)

lemma get_set_pixel:
  assumes "pix_inv s" "x < 8" "y < 8" "bulb = UPPER \<or> bulb = LOWER" "c < 16"
    "x' < 8" "y' < 8" "bulb' = UPPER \<or> bulb' = LOWER"
  shows "get_pixel x' y' bulb' (set_pixel x y bulb c s) =
           (if (x', y', bulb') = (x, y, bulb) then c else get_pixel x' y' bulb' s)"
  using get_set_pixel_same [OF assms(1,2,3,5), of bulb]
    get_set_pixel_other [OF assms(1-4) assms(6-8), of c]
  by auto

lemma color_lt16: "ORANGE < 16" "YELLOW < 16" "BLACK < 16"
  by (simp_all add: color_consts)

lemma get_pixel_BLACK_range: "get_pixel x y bulb s = BLACK \<Longrightarrow> x < 8 \<and> y < 8"
proof (rule ccontr)
  assume b: "get_pixel x y bulb s = BLACK" and "\<not> (x < 8 \<and> y < 8)"
  then have "7 < x \<or> 7 < y" by (auto simp: word_less_nat_alt word_le_nat_alt)
  then have "get_pixel x y bulb s = 255" by (rule get_pixel_out_of_range)
  with b show False by (simp add: BLACK_def)
qed

lemma move_grain_eq:
  "move_grain x1 y1 x2 y2 bulb s =
     (if get_pixel x2 y2 bulb s = BLACK
      then (1, wait (sim_speed s) (set_pixel x2 y2 bulb ORANGE (wait (sim_speed s) (set_pixel x1 y1 bulb BLACK s))))
      else (0, s))"
  by (simp add: move_grain_def Let_def)

lemma moved_state:
  assumes "pix_inv s" "x1 < 8" "y1 < 8" "bulb = UPPER \<or> bulb = LOWER"
    "get_pixel x2 y2 bulb s = BLACK" "(x2, y2) \<noteq> (x1, y1)"
  defines "s' \<equiv> wait (sim_speed s) (set_pixel x2 y2 bulb ORANGE (wait (sim_speed s) (set_pixel x1 y1 bulb BLACK s)))"
  shows "grain_moved (x1, y1, bulb) (x2, y2, bulb) s s'" "static_counter s' = static_counter s"
    "side s' = side s" "pix_inv s'"
proof -
  from assms(5) have r2: "x2 < 8" "y2 < 8" using get_pixel_BLACK_range by blast+
  obtain t b c where w: "wait (sim_speed s) (set_pixel x1 y1 bulb BLACK s) = clocked t b c (set_pixel x1 y1 bulb BLACK s)"
    using wait_clocked by blast
  have i1: "pix_inv (wait (sim_speed s) (set_pixel x1 y1 bulb BLACK s))"
    using assms(1) by simp
  have v: "get_pixel x' y' b' s' =
      (if (x', y', b') = (x2, y2, bulb) then ORANGE
       else if (x', y', b') = (x1, y1, bulb) then BLACK else get_pixel x' y' b' s)"
    if "x' < 8" "y' < 8" "b' = UPPER \<or> b' = LOWER" for x' y' b'
  proof -
    have a: "get_pixel x' y' b' (set_pixel x1 y1 bulb BLACK s) =
        (if (x', y', b') = (x1, y1, bulb) then BLACK else get_pixel x' y' b' s)"
      by (rule get_set_pixel [OF assms(1-4) color_lt16(3) that])
    have b: "get_pixel x' y' b'
          (set_pixel x2 y2 bulb ORANGE (wait (sim_speed s) (set_pixel x1 y1 bulb BLACK s))) =
        (if (x', y', b') = (x2, y2, bulb) then ORANGE
         else get_pixel x' y' b' (wait (sim_speed s) (set_pixel x1 y1 bulb BLACK s)))"
      by (rule get_set_pixel [OF i1 r2 assms(4) color_lt16(1) that])
    show ?thesis
      unfolding s'_def by (simp only: wait_fields b a)
  qed
  show "grain_moved (x1, y1, bulb) (x2, y2, bulb) s s'"
    unfolding grain_moved_def same_except_iff
    using v [OF assms(2,3,4)] v [OF r2 assms(4)] v assms(6) by auto
  show "static_counter s' = static_counter s" "side s' = side s" "pix_inv s'"
    unfolding s'_def using assms(1) by simp_all
qed


section \<open>The relaxation step\<close>

lemma move_grain_moved:
  "move_grain x1 y1 x2 y2 bulb s =
     (if get_pixel x2 y2 bulb s = BLACK then (1, moved_grain x1 y1 x2 y2 bulb s) else (0, s))"
  by (simp add: move_grain_eq moved_grain_def)

lemma get_pixel_upd [simp]:
  "get_pixel x y b (s\<lparr>side := v\<rparr>) = get_pixel x y b s"
  "get_pixel x y b (s\<lparr>static_counter := v\<rparr>) = get_pixel x y b s"
  "get_pixel x y b (s\<lparr>last_drop := t\<rparr>) = get_pixel x y b s"
  "get_pixel x y b (s\<lparr>rnd := v\<rparr>) = get_pixel x y b s"
  by (simp_all add: get_pixel_def)

lemma pix_inv_upd [simp]:
  "pix_inv (s\<lparr>side := v\<rparr>) = pix_inv s"
  "pix_inv (s\<lparr>static_counter := v\<rparr>) = pix_inv s"
  "pix_inv (s\<lparr>last_drop := t\<rparr>) = pix_inv s"
  "pix_inv (s\<lparr>rnd := v\<rparr>) = pix_inv s"
  by (simp_all add: pix_inv_def)

lemma same_except_upd [simp]:
  "same_except ex (s\<lparr>side := v\<rparr>) s' = same_except ex s s'"
  "same_except ex s (s'\<lparr>static_counter := v\<rparr>) = same_except ex s s'"
  "same_except ex (s\<lparr>static_counter := v\<rparr>) s' = same_except ex s s'"
  "same_except ex (s\<lparr>last_drop := t\<rparr>) s' = same_except ex s s'"
  by (simp_all add: same_except_def)

lemma grain_moved_upd [simp]:
  "grain_moved p q (s\<lparr>side := v\<rparr>) s' = grain_moved p q s s'"
  "grain_moved p q s (s'\<lparr>static_counter := v\<rparr>) = grain_moved p q s s'"
  by (cases p; cases q; simp add: grain_moved_def)+

lemma moved_grain_facts:
  assumes "pix_inv s" "x1 < 8" "y1 < 8" "bulb = UPPER \<or> bulb = LOWER"
    "get_pixel x2 y2 bulb s = BLACK" "(x2, y2) \<noteq> (x1, y1)"
  shows "grain_moved (x1, y1, bulb) (x2, y2, bulb) s (moved_grain x1 y1 x2 y2 bulb s)"
    "static_counter (moved_grain x1 y1 x2 y2 bulb s) = static_counter s"
    "side (moved_grain x1 y1 x2 y2 bulb s) = side s"
    "pix_inv (moved_grain x1 y1 x2 y2 bulb s)"
  unfolding moved_grain_def by (rule moved_state [OF assms])+

lemma mask7_lt8: "(v :: u8) AND 7 < 8"
proof -
  have "v AND 7 \<le> 7" by (rule word_and_le1)
  then show ?thesis by (simp add: word_le_nat_alt word_less_nat_alt)
qed

lemma sg_black:
  assumes "get_pixel (x0 AND 7) (y0 AND 7) bulb s = BLACK"
  shows "simulate_grain x0 y0 bulb s =
           (static_counter s + 1, s\<lparr>static_counter := static_counter s + 1\<rparr>)"
  using assms by (simp add: simulate_grain_def Let_def)

lemma sg_diag:
  assumes "get_pixel (x0 AND 7) (y0 AND 7) bulb s \<noteq> BLACK"
    "get_pixel ((x0 AND 7) + 1) ((y0 AND 7) + 1) bulb s = BLACK"
  shows "simulate_grain x0 y0 bulb s =
           (0, (moved_grain (x0 AND 7) (y0 AND 7) ((x0 AND 7) + 1) ((y0 AND 7) + 1) bulb s)
                 \<lparr>static_counter := 0\<rparr>)"
  using assms by (simp add: simulate_grain_def Let_def move_grain_moved)

lemma sg_fall:
  assumes "get_pixel (x0 AND 7) (y0 AND 7) bulb s \<noteq> BLACK"
    "get_pixel ((x0 AND 7) + 1) ((y0 AND 7) + 1) bulb s \<noteq> BLACK"
  shows "simulate_grain x0 y0 bulb s =
    (let x = x0 AND 7; y = y0 AND 7;
         s2 = s\<lparr>side := side s XOR 1\<rparr>;
         a = (if side s \<noteq> 0 then (x + 1, y) else (x, y + 1));
         b = (if side s \<noteq> 0 then (x, y + 1) else (x + 1, y))
     in if get_pixel (fst a) (snd a) bulb s = BLACK
        then (0, (moved_grain x y (fst a) (snd a) bulb s2)\<lparr>static_counter := 0\<rparr>)
        else if get_pixel (fst b) (snd b) bulb s = BLACK
        then (0, (moved_grain x y (fst b) (snd b) bulb s2)\<lparr>static_counter := 0\<rparr>)
        else if bulb = LOWER
        then (static_counter s + 1, set_pixel x y bulb YELLOW (s2\<lparr>static_counter := static_counter s + 1\<rparr>))
        else (0, set_pixel x y bulb YELLOW (s2\<lparr>static_counter := 0\<rparr>)))"
  using assms by (simp add: simulate_grain_def Let_def move_grain_moved)


section \<open>Filling the upper bulb\<close>

lemma row_colour_zero: "row_colour \<lparr>lsb = 0, msb = 0\<rparr> k = 0"
  by (simp add: row_colour_def Let_def)

lemma getPixel_clearScreen:
  assumes "x < 16" "y < 8" "scr_vis d = scr_wrk d" "scr_wrk d + 16 \<le> length (screen d)"
  shows "getPixel x y VISIBLE (clearScreen d) = BLACK"
proof -
  have "unat x < 16" using assms(1) by (simp add: word_less_nat_alt)
  then show ?thesis
    using assms(3,4)
    by (simp add: getPixel_eq [OF assms(1,2)] clearScreen_nth row_colour_zero BLACK_def)
qed

lemma pix_inv_clear: "pix_inv s \<Longrightarrow> pix_inv (s\<lparr>dm := clearScreen (dm s)\<rparr>)"
  by (simp add: pix_inv_def)

lemma get_pixel_clear:
  assumes "pix_inv s" "x < 8" "y < 8"
  shows "get_pixel x y bulb (s\<lparr>dm := clearScreen (dm s)\<rparr>) = BLACK"
proof -
  from assms(1) have g: "gravity s = DOWN \<or> gravity s = UP" by (simp add: pix_inv_def)
  note r = orient_range [OF g assms(2,3), of bulb]
  note f = u8_lt8_facts(8) [OF assms(2)] u8_lt8_facts(8) [OF assms(3)]
  from assms(1) r show ?thesis
    by (simp add: get_pixel_orient f pix_inv_def getPixel_clearScreen)
qed

lemma u8_succ_le:
  fixes x x' :: u8
  assumes "x < 8"
  shows "(x \<le> x') = (x = x' \<or> x + 1 \<le> x')"
proof -
  have "unat x < 8" using assms by (simp add: word_less_nat_alt)
  then have "unat (x + 1) = unat x + 1" by (simp add: unat_word_ariths)
  then show ?thesis
    by (auto simp: word_le_nat_alt word_unat_eq_iff)
qed

lemma fill_bulb_x_get:
  assumes "pix_inv s" "y < 8" "bulb = UPPER \<or> bulb = LOWER"
  shows "pix_inv (fill_bulb_x x y bulb s) \<and>
    (\<forall>x' y' b'. x' < 8 \<and> y' < 8 \<and> (b' = UPPER \<or> b' = LOWER) \<longrightarrow>
       get_pixel x' y' b' (fill_bulb_x x y bulb s) =
         (if b' = bulb \<and> y' = y \<and> x \<le> x' \<and> 3 < x' + y' then YELLOW else get_pixel x' y' b' s))"
  using assms
proof (induction x y bulb s rule: fill_bulb_x.induct)
  case (1 x y bulb s)
  show ?case
  proof (cases "x < 8")
    case True
    define s1 where "s1 = (if 3 < x + y then wait 8 (set_pixel x y bulb YELLOW s) else s)"
    have e: "fill_bulb_x x y bulb s = fill_bulb_x (x + 1) y bulb s1"
      unfolding s1_def by (subst fill_bulb_x.simps) (simp only: True if_True)
    note p = "1.prems"
    have i1: "pix_inv s1" using p(1) by (simp add: s1_def)
    have g1: "get_pixel x' y' b' s1 =
        (if 3 < x + y \<and> (x', y', b') = (x, y, bulb) then YELLOW else get_pixel x' y' b' s)"
      if "x' < 8" "y' < 8" "b' = UPPER \<or> b' = LOWER" for x' y' b'
    proof (cases "3 < x + y")
      case c: True
      then have "get_pixel x' y' b' s1 = get_pixel x' y' b' (set_pixel x y bulb YELLOW s)"
        by (simp add: s1_def)
      also have "\<dots> = (if (x', y', b') = (x, y, bulb) then YELLOW else get_pixel x' y' b' s)"
        by (rule get_set_pixel [OF p(1) True p(2,3) color_lt16(2) that])
      finally show ?thesis using c by simp
    next
      case False
      then show ?thesis by (simp add: s1_def)
    qed
    from "1.IH" [OF True, folded s1_def, OF i1 p(2,3)]
    have ih: "pix_inv (fill_bulb_x (x + 1) y bulb s1)"
      "\<And>x' y' b'. x' < 8 \<and> y' < 8 \<and> (b' = UPPER \<or> b' = LOWER) \<Longrightarrow>
         get_pixel x' y' b' (fill_bulb_x (x + 1) y bulb s1) =
           (if b' = bulb \<and> y' = y \<and> x + 1 \<le> x' \<and> 3 < x' + y' then YELLOW
            else get_pixel x' y' b' s1)"
      by blast+
    show ?thesis
      unfolding e
      using ih(1) ih(2) g1 u8_succ_le [OF True]
      by (auto)
  next
    case False
    then have e: "fill_bulb_x x y bulb s = s"
      by (subst fill_bulb_x.simps) (simp only: if_False)
    have "\<not> x \<le> x'" if "x' < 8" for x'
      using that False by (simp add: word_le_nat_alt word_less_nat_alt)
    then show ?thesis
      unfolding e using "1.prems"(1) by auto
  qed
qed

lemma fill_bulb_y_get:
  assumes "pix_inv s" "bulb = UPPER \<or> bulb = LOWER"
  shows "pix_inv (fill_bulb_y y bulb s) \<and>
    (\<forall>x' y' b'. x' < 8 \<and> y' < 8 \<and> (b' = UPPER \<or> b' = LOWER) \<longrightarrow>
       get_pixel x' y' b' (fill_bulb_y y bulb s) =
         (if b' = bulb \<and> y \<le> y' \<and> 3 < x' + y' then YELLOW else get_pixel x' y' b' s))"
  using assms
proof (induction y bulb s rule: fill_bulb_y.induct)
  case (1 y bulb s)
  note p = "1.prems"
  show ?case
  proof (cases "y < 8")
    case True
    define s1 where "s1 = fill_bulb_x 0 y bulb s"
    have e: "fill_bulb_y y bulb s = fill_bulb_y (y + 1) bulb s1"
      unfolding s1_def by (subst fill_bulb_y.simps) (simp only: True if_True)
    from fill_bulb_x_get [OF p(1) True p(2), of 0, folded s1_def]
    have i1: "pix_inv s1"
      and g1: "\<And>x' y' b'. x' < 8 \<and> y' < 8 \<and> (b' = UPPER \<or> b' = LOWER) \<Longrightarrow>
        get_pixel x' y' b' s1 =
          (if b' = bulb \<and> y' = y \<and> 3 < x' + y' then YELLOW else get_pixel x' y' b' s)"
      by simp_all
    from "1.IH" [OF True, folded s1_def, OF i1 p(2)]
    have ih: "pix_inv (fill_bulb_y (y + 1) bulb s1)"
      "\<And>x' y' b'. x' < 8 \<and> y' < 8 \<and> (b' = UPPER \<or> b' = LOWER) \<Longrightarrow>
         get_pixel x' y' b' (fill_bulb_y (y + 1) bulb s1) =
           (if b' = bulb \<and> y + 1 \<le> y' \<and> 3 < x' + y' then YELLOW
            else get_pixel x' y' b' s1)"
      by blast+
    show ?thesis
      unfolding e
      using ih(1) ih(2) g1 u8_succ_le [OF True]
      by auto
  next
    case False
    then have e: "fill_bulb_y y bulb s = s"
      by (subst fill_bulb_y.simps) (simp only: if_False)
    have "\<not> y \<le> y'" if "y' < 8" for y'
      using that False by (simp add: word_le_nat_alt word_less_nat_alt)
    then show ?thesis
      unfolding e using p(1) by auto
  qed
qed

lemma reset_hour_glass_get:
  assumes "pix_inv s"
  shows "pix_inv (reset_hour_glass s)"
    and "x < 8 \<Longrightarrow> y < 8 \<Longrightarrow> get_pixel x y UPPER (reset_hour_glass s) = (if 3 < x + y then YELLOW else BLACK)"
    and "x < 8 \<Longrightarrow> y < 8 \<Longrightarrow> get_pixel x y LOWER (reset_hour_glass s) = BLACK"
proof -
  define s1 where "s1 = s\<lparr>dm := clearScreen (dm s)\<rparr>"
  have i1: "pix_inv s1" unfolding s1_def using assms by (rule pix_inv_clear)
  have u: "UPPER = UPPER \<or> UPPER = LOWER" by simp
  from fill_bulb_y_get [OF i1 u, of 0]
  have f: "pix_inv (fill_bulb_y 0 UPPER s1)"
    "\<And>x' y' b'. x' < 8 \<and> y' < 8 \<and> (b' = UPPER \<or> b' = LOWER) \<Longrightarrow>
       get_pixel x' y' b' (fill_bulb_y 0 UPPER s1) =
         (if b' = UPPER \<and> 3 < x' + y' then YELLOW else get_pixel x' y' b' s1)"
    by simp_all
  have r: "reset_hour_glass s = fill_bulb_y 0 UPPER s1"
    by (simp add: reset_hour_glass_def fill_bulb_def s1_def)
  show "pix_inv (reset_hour_glass s)" unfolding r by (rule f(1))
  show "get_pixel x y UPPER (reset_hour_glass s) = (if 3 < x + y then YELLOW else BLACK)"
    if "x < 8" "y < 8"
    unfolding r using f(2) [of x y UPPER] that get_pixel_clear [OF assms that, of UPPER]
    by (simp add: s1_def)
  show "get_pixel x y LOWER (reset_hour_glass s) = BLACK" if "x < 8" "y < 8"
    unfolding r using f(2) [of x y LOWER] that get_pixel_clear [OF assms that, of LOWER]
    by (simp add: s1_def UPPER_def LOWER_def)
qed

lemma set_cells: "set cells = {(x, y). x < 8 \<and> y < 8}"
  by (auto simp: cells_def set_coords)

lemma cells_count: "length (filter (\<lambda>(x, y). 3 < x + y) cells) = 54"
  by (simp add: cells_def coords_def)

lemma reset_hour_glass_grains:
  assumes "pix_inv s"
  shows "grains UPPER (reset_hour_glass s) = 54" "grains LOWER (reset_hour_glass s) = 0"
proof -
  have "filter (\<lambda>(x, y). get_pixel x y UPPER (reset_hour_glass s) \<noteq> BLACK) cells
      = filter (\<lambda>(x, y). 3 < x + y) cells"
    by (rule filter_cong [OF refl])
      (auto simp: set_cells reset_hour_glass_get(2) [OF assms] color_consts split: if_splits)
  then show "grains UPPER (reset_hour_glass s) = 54"
    by (simp add: grains_def cells_count)
  have "filter (\<lambda>(x, y). get_pixel x y LOWER (reset_hour_glass s) \<noteq> BLACK) cells = []"
    by (auto simp: filter_empty_conv set_cells reset_hour_glass_get(3) [OF assms])
  then show "grains LOWER (reset_hour_glass s) = 0"
    by (simp add: grains_def)
qed


section \<open>The effect of one relaxation step\<close>

lemma u8_succ_neq: "(x :: u8) + 1 \<noteq> x"
  by simp

lemma sg_effect:
  fixes x0 y0 bulb :: u8 and s :: hourglass
  assumes "pix_inv s" "bulb = UPPER \<or> bulb = LOWER"
  defines "x \<equiv> x0 AND 7" and "y \<equiv> y0 AND 7"
  defines "s' \<equiv> snd (simulate_grain x0 y0 bulb s)"
  defines "a \<equiv> (if side s \<noteq> 0 then (x + 1, y) else (x, y + 1))"
  defines "b \<equiv> (if side s \<noteq> 0 then (x, y + 1) else (x + 1, y))"
  shows "pix_inv s'"
    and "fst (simulate_grain x0 y0 bulb s) = static_counter s'"
    and "get_pixel x y bulb s = BLACK \<Longrightarrow> s' = s\<lparr>static_counter := static_counter s + 1\<rparr>"
    and "get_pixel x y bulb s \<noteq> BLACK \<Longrightarrow> get_pixel (x + 1) (y + 1) bulb s = BLACK \<Longrightarrow>
           grain_moved (x, y, bulb) (x + 1, y + 1, bulb) s s' \<and> static_counter s' = 0 \<and> side s' = side s"
    and "get_pixel x y bulb s \<noteq> BLACK \<Longrightarrow> get_pixel (x + 1) (y + 1) bulb s \<noteq> BLACK \<Longrightarrow>
           side s' = side s XOR 1"
    and "get_pixel x y bulb s \<noteq> BLACK \<Longrightarrow> get_pixel (x + 1) (y + 1) bulb s \<noteq> BLACK \<Longrightarrow>
           get_pixel (fst a) (snd a) bulb s = BLACK \<Longrightarrow>
           grain_moved (x, y, bulb) (fst a, snd a, bulb) s s' \<and> static_counter s' = 0"
    and "get_pixel x y bulb s \<noteq> BLACK \<Longrightarrow> get_pixel (x + 1) (y + 1) bulb s \<noteq> BLACK \<Longrightarrow>
           get_pixel (fst a) (snd a) bulb s \<noteq> BLACK \<Longrightarrow> get_pixel (fst b) (snd b) bulb s = BLACK \<Longrightarrow>
           grain_moved (x, y, bulb) (fst b, snd b, bulb) s s' \<and> static_counter s' = 0"
    and "get_pixel x y bulb s \<noteq> BLACK \<Longrightarrow> get_pixel (x + 1) (y + 1) bulb s \<noteq> BLACK \<Longrightarrow>
           get_pixel (fst a) (snd a) bulb s \<noteq> BLACK \<Longrightarrow> get_pixel (fst b) (snd b) bulb s \<noteq> BLACK \<Longrightarrow>
           get_pixel x y bulb s' = YELLOW \<and> same_except [(x, y, bulb)] s s' \<and>
           static_counter s' = (if bulb = LOWER then static_counter s + 1 else 0)"
proof -
  have xr: "x < 8" "y < 8" unfolding x_def y_def by (rule mask7_lt8)+
  define s2 where "s2 = s\<lparr>side := side s XOR 1\<rparr>"
  have i2: "pix_inv s2" using assms(1) by (simp add: s2_def)
  have na: "(fst a, snd a) \<noteq> (x, y)" and nb: "(fst b, snd b) \<noteq> (x, y)"
    by (simp_all add: a_def b_def)
  consider (black) "get_pixel x y bulb s = BLACK"
    | (diag) "get_pixel x y bulb s \<noteq> BLACK" "get_pixel (x + 1) (y + 1) bulb s = BLACK"
    | (first) "get_pixel x y bulb s \<noteq> BLACK" "get_pixel (x + 1) (y + 1) bulb s \<noteq> BLACK"
        "get_pixel (fst a) (snd a) bulb s = BLACK"
    | (second) "get_pixel x y bulb s \<noteq> BLACK" "get_pixel (x + 1) (y + 1) bulb s \<noteq> BLACK"
        "get_pixel (fst a) (snd a) bulb s \<noteq> BLACK" "get_pixel (fst b) (snd b) bulb s = BLACK"
    | (settle) "get_pixel x y bulb s \<noteq> BLACK" "get_pixel (x + 1) (y + 1) bulb s \<noteq> BLACK"
        "get_pixel (fst a) (snd a) bulb s \<noteq> BLACK" "get_pixel (fst b) (snd b) bulb s \<noteq> BLACK"
    by blast
  then have "pix_inv s' \<and> fst (simulate_grain x0 y0 bulb s) = static_counter s' \<and>
    (get_pixel x y bulb s = BLACK \<longrightarrow> s' = s\<lparr>static_counter := static_counter s + 1\<rparr>) \<and>
    (get_pixel x y bulb s \<noteq> BLACK \<and> get_pixel (x + 1) (y + 1) bulb s = BLACK \<longrightarrow>
       grain_moved (x, y, bulb) (x + 1, y + 1, bulb) s s' \<and> static_counter s' = 0 \<and> side s' = side s) \<and>
    (get_pixel x y bulb s \<noteq> BLACK \<and> get_pixel (x + 1) (y + 1) bulb s \<noteq> BLACK \<longrightarrow>
       side s' = side s XOR 1 \<and>
       (get_pixel (fst a) (snd a) bulb s = BLACK \<longrightarrow>
          grain_moved (x, y, bulb) (fst a, snd a, bulb) s s' \<and> static_counter s' = 0) \<and>
       (get_pixel (fst a) (snd a) bulb s \<noteq> BLACK \<and> get_pixel (fst b) (snd b) bulb s = BLACK \<longrightarrow>
          grain_moved (x, y, bulb) (fst b, snd b, bulb) s s' \<and> static_counter s' = 0) \<and>
       (get_pixel (fst a) (snd a) bulb s \<noteq> BLACK \<and> get_pixel (fst b) (snd b) bulb s \<noteq> BLACK \<longrightarrow>
          get_pixel x y bulb s' = YELLOW \<and> same_except [(x, y, bulb)] s s' \<and>
          static_counter s' = (if bulb = LOWER then static_counter s + 1 else 0)))"
  proof cases
    case black
    then have "simulate_grain x0 y0 bulb s =
        (static_counter s + 1, s\<lparr>static_counter := static_counter s + 1\<rparr>)"
      unfolding x_def y_def by (rule sg_black)
    then show ?thesis using black assms(1) by (simp add: s'_def)
  next
    case diag
    then have e: "simulate_grain x0 y0 bulb s =
        (0, (moved_grain x y (x + 1) (y + 1) bulb s)\<lparr>static_counter := 0\<rparr>)"
      unfolding x_def y_def by (rule sg_diag)
    have "(x + 1, y + 1) \<noteq> (x, y)" by simp
    from moved_grain_facts [OF assms(1) xr assms(2) diag(2) this] diag
    show ?thesis by (simp add: s'_def e)
  next
    case first
    then have e: "simulate_grain x0 y0 bulb s =
        (0, (moved_grain x y (fst a) (snd a) bulb s2)\<lparr>static_counter := 0\<rparr>)"
      unfolding x_def y_def a_def b_def s2_def
      by (simp add: sg_fall Let_def)
    have "get_pixel (fst a) (snd a) bulb s2 = BLACK" using first(3) by (simp add: s2_def)
    from moved_grain_facts [OF i2 xr assms(2) this na] first
    show ?thesis by (simp add: s'_def e s2_def)
  next
    case second
    then have e: "simulate_grain x0 y0 bulb s =
        (0, (moved_grain x y (fst b) (snd b) bulb s2)\<lparr>static_counter := 0\<rparr>)"
      unfolding x_def y_def a_def b_def s2_def
      by (simp add: sg_fall Let_def)
    have "get_pixel (fst b) (snd b) bulb s2 = BLACK" using second(4) by (simp add: s2_def)
    from moved_grain_facts [OF i2 xr assms(2) this nb] second
    show ?thesis by (simp add: s'_def e s2_def)
  next
    case settle
    define cnt where "cnt = (if bulb = LOWER then static_counter s + 1 else 0)"
    define s6 where "s6 = s2\<lparr>static_counter := cnt\<rparr>"
    from settle have e: "simulate_grain x0 y0 bulb s = (cnt, set_pixel x y bulb YELLOW s6)"
      unfolding x_def y_def a_def b_def s2_def s6_def cnt_def
      by (simp add: sg_fall Let_def)
    have i6: "pix_inv s6" using i2 by (simp add: s6_def)
    have g: "get_pixel x' y' b' (set_pixel x y bulb YELLOW s6) =
        (if (x', y', b') = (x, y, bulb) then YELLOW else get_pixel x' y' b' s)"
      if "x' < 8" "y' < 8" "b' = UPPER \<or> b' = LOWER" for x' y' b'
      using get_set_pixel [OF i6 xr assms(2) color_lt16(2) that]
      by (simp add: s6_def s2_def)
    have "same_except [(x, y, bulb)] s (set_pixel x y bulb YELLOW s6)"
      unfolding same_except_iff using g by auto
    moreover have "get_pixel x y bulb (set_pixel x y bulb YELLOW s6) = YELLOW"
      using g [OF xr assms(2)] by simp
    ultimately show ?thesis
      using settle i6 by (simp add: s'_def e s6_def s2_def cnt_def)
  qed
  then show "pix_inv s'"
    and "fst (simulate_grain x0 y0 bulb s) = static_counter s'"
    and "get_pixel x y bulb s = BLACK \<Longrightarrow> s' = s\<lparr>static_counter := static_counter s + 1\<rparr>"
    and "get_pixel x y bulb s \<noteq> BLACK \<Longrightarrow> get_pixel (x + 1) (y + 1) bulb s = BLACK \<Longrightarrow>
           grain_moved (x, y, bulb) (x + 1, y + 1, bulb) s s' \<and> static_counter s' = 0 \<and> side s' = side s"
    and "get_pixel x y bulb s \<noteq> BLACK \<Longrightarrow> get_pixel (x + 1) (y + 1) bulb s \<noteq> BLACK \<Longrightarrow>
           side s' = side s XOR 1"
    and "get_pixel x y bulb s \<noteq> BLACK \<Longrightarrow> get_pixel (x + 1) (y + 1) bulb s \<noteq> BLACK \<Longrightarrow>
           get_pixel (fst a) (snd a) bulb s = BLACK \<Longrightarrow>
           grain_moved (x, y, bulb) (fst a, snd a, bulb) s s' \<and> static_counter s' = 0"
    and "get_pixel x y bulb s \<noteq> BLACK \<Longrightarrow> get_pixel (x + 1) (y + 1) bulb s \<noteq> BLACK \<Longrightarrow>
           get_pixel (fst a) (snd a) bulb s \<noteq> BLACK \<Longrightarrow> get_pixel (fst b) (snd b) bulb s = BLACK \<Longrightarrow>
           grain_moved (x, y, bulb) (fst b, snd b, bulb) s s' \<and> static_counter s' = 0"
    and "get_pixel x y bulb s \<noteq> BLACK \<Longrightarrow> get_pixel (x + 1) (y + 1) bulb s \<noteq> BLACK \<Longrightarrow>
           get_pixel (fst a) (snd a) bulb s \<noteq> BLACK \<Longrightarrow> get_pixel (fst b) (snd b) bulb s \<noteq> BLACK \<Longrightarrow>
           get_pixel x y bulb s' = YELLOW \<and> same_except [(x, y, bulb)] s s' \<and>
           static_counter s' = (if bulb = LOWER then static_counter s + 1 else 0)"
    by blast+
qed


section \<open>Counting grains\<close>

lemma distinct_coords: "distinct coords"
  by (simp add: coords_def)

lemma distinct_bulb_cells: "distinct bulb_cells"
  by (simp add: bulb_cells_def coords_def UPPER_def LOWER_def)

lemma bulb_cells_split:
  "bulb_cells = map (\<lambda>(x, y). (x, y, UPPER)) cells @ map (\<lambda>(x, y). (x, y, LOWER)) cells"
  by (simp add: bulb_cells_def cells_def map_concat o_def)

lemma total_grains_bulbs: "total_grains s = grains UPPER s + grains LOWER s"
  by (simp add: total_grains_def grains_def bulb_cells_split filter_map o_def split_def)

lemma filter_count_move:
  assumes "distinct xs" "p \<in> set xs" "q \<in> set xs" "p \<noteq> q"
    "P p" "\<not> P q" "\<not> P' p" "P' q" "\<forall>z \<in> set xs. z \<noteq> p \<and> z \<noteq> q \<longrightarrow> P' z = P z"
  shows "length (filter P' xs) = length (filter P xs)"
proof -
  define A where "A = {z \<in> set xs. P z}"
  define B where "B = {z \<in> set xs. P' z}"
  have fin: "finite A" by (simp add: A_def)
  have pA: "p \<in> A" using assms(2,5) by (simp add: A_def)
  have qA: "q \<notin> A - {p}" using assms(6) by (simp add: A_def)
  have "B = insert q (A - {p})"
  proof (rule set_eqI)
    fix z
    show "z \<in> B \<longleftrightarrow> z \<in> insert q (A - {p})"
    proof (cases "z = p \<or> z = q")
      case True
      then show ?thesis using assms(2-8) by (auto simp: A_def B_def)
    next
      case False
      then have "z \<in> set xs \<Longrightarrow> P' z = P z" using assms(9) by simp
      with False show ?thesis by (auto simp: A_def B_def)
    qed
  qed
  then have "card B = card (insert q (A - {p}))" by (rule arg_cong)
  also have "\<dots> = Suc (card (A - {p}))"
    using fin qA by (intro card_insert_disjoint) simp_all
  also have "\<dots> = card A"
    using fin pA by (rule card_Suc_Diff1)
  finally have "card B = card A" .
  moreover have "length (filter P xs) = card A" "length (filter P' xs) = card B"
    using assms(1) by (simp_all add: distinct_length_filter Int_def conj_commute A_def B_def)
  ultimately show ?thesis by simp
qed

lemma filter_count_same:
  assumes "\<forall>z \<in> set xs. P' z = P z"
  shows "length (filter P' xs) = length (filter P xs)"
proof -
  have "filter P' xs = filter P xs"
    by (rule filter_cong [OF refl]) (simp add: assms)
  then show ?thesis by simp
qed

lemma total_grains_moved:
  assumes "grain_moved (x, y, b) (x2, y2, b2) s s'"
    "x < 8" "y < 8" "b = UPPER \<or> b = LOWER" "x2 < 8" "y2 < 8" "b2 = UPPER \<or> b2 = LOWER"
    "(x, y, b) \<noteq> (x2, y2, b2)" "get_pixel x y b s \<noteq> BLACK" "get_pixel x2 y2 b2 s = BLACK"
  shows "total_grains s' = total_grains s"
  unfolding total_grains_def
proof (rule filter_count_move [where p = "(x, y, b)" and q = "(x2, y2, b2)"])
  show "distinct bulb_cells" by (rule distinct_bulb_cells)
  show "(x, y, b) \<in> set bulb_cells" "(x2, y2, b2) \<in> set bulb_cells"
    using assms(2-7) by (simp_all add: set_bulb_cells)
  show "(x, y, b) \<noteq> (x2, y2, b2)" by (rule assms(8))
  show "case (x, y, b) of (x, y, b) \<Rightarrow> get_pixel x y b s \<noteq> BLACK" using assms(9) by simp
  show "\<not> (case (x2, y2, b2) of (x, y, b) \<Rightarrow> get_pixel x y b s \<noteq> BLACK)" using assms(10) by simp
  show "\<not> (case (x, y, b) of (x, y, b) \<Rightarrow> get_pixel x y b s' \<noteq> BLACK)"
    using assms(1) by (simp add: grain_moved_def)
  show "case (x2, y2, b2) of (x, y, b) \<Rightarrow> get_pixel x y b s' \<noteq> BLACK"
    using assms(1) by (simp add: grain_moved_def color_consts)
  show "\<forall>z \<in> set bulb_cells. z \<noteq> (x, y, b) \<and> z \<noteq> (x2, y2, b2) \<longrightarrow>
      (case z of (x, y, b) \<Rightarrow> get_pixel x y b s' \<noteq> BLACK) =
      (case z of (x, y, b) \<Rightarrow> get_pixel x y b s \<noteq> BLACK)"
    using assms(1) by (auto simp: grain_moved_def same_except_iff set_bulb_cells)
qed


section \<open>Conservation of grains\<close>

lemma drop_grain_effect:
  assumes "pix_inv s"
  shows "pix_inv (drop_grain s)"
    and "get_pixel 7 7 UPPER s \<noteq> BLACK \<Longrightarrow> get_pixel 0 0 LOWER s = BLACK \<Longrightarrow>
           grain_moved (7, 7, UPPER) (0, 0, LOWER) s (drop_grain s)"
    and "get_pixel 7 7 UPPER s = BLACK \<or> get_pixel 0 0 LOWER s \<noteq> BLACK \<Longrightarrow> drop_grain s = s"
proof -
  show "pix_inv (drop_grain s)" using assms by (simp add: drop_grain_def)
  show "drop_grain s = s" if "get_pixel 7 7 UPPER s = BLACK \<or> get_pixel 0 0 LOWER s \<noteq> BLACK"
    using that by (auto simp: drop_grain_def)
  show "grain_moved (7, 7, UPPER) (0, 0, LOWER) s (drop_grain s)"
    if t: "get_pixel 7 7 UPPER s \<noteq> BLACK" "get_pixel 0 0 LOWER s = BLACK"
  proof -
    have e: "drop_grain s = set_pixel 0 0 LOWER ORANGE (set_pixel 7 7 UPPER BLACK s)"
      using t by (simp add: drop_grain_def)
    have r: "(7 :: u8) < 8" "(0 :: u8) < 8" by simp_all
    have u: "UPPER = UPPER \<or> UPPER = LOWER" "LOWER = UPPER \<or> LOWER = LOWER" by simp_all
    have i1: "pix_inv (set_pixel 7 7 UPPER BLACK s)" using assms by simp
    have v: "get_pixel x' y' b' (drop_grain s) =
        (if (x', y', b') = (0, 0, LOWER) then ORANGE
         else if (x', y', b') = (7, 7, UPPER) then BLACK else get_pixel x' y' b' s)"
      if "x' < 8" "y' < 8" "b' = UPPER \<or> b' = LOWER" for x' y' b'
    proof -
      have a: "get_pixel x' y' b' (set_pixel 7 7 UPPER BLACK s) =
          (if (x', y', b') = (7, 7, UPPER) then BLACK else get_pixel x' y' b' s)"
        by (rule get_set_pixel [OF assms r(1) r(1) u(1) color_lt16(3) that])
      have b: "get_pixel x' y' b' (set_pixel 0 0 LOWER ORANGE (set_pixel 7 7 UPPER BLACK s)) =
          (if (x', y', b') = (0, 0, LOWER) then ORANGE
           else get_pixel x' y' b' (set_pixel 7 7 UPPER BLACK s))"
        by (rule get_set_pixel [OF i1 r(2) r(2) u(2) color_lt16(1) that])
      show ?thesis unfolding e by (simp only: b a)
    qed
    show ?thesis
      unfolding grain_moved_def same_except_iff
      using v [OF r(1) r(1) u(1)] v [OF r(2) r(2) u(2)] v
      by (auto simp: UPPER_def LOWER_def)
  qed
qed

lemma total_grains_drop:
  assumes "pix_inv s"
  shows "total_grains (drop_grain s) = total_grains s"
proof (cases "get_pixel 7 7 UPPER s \<noteq> BLACK \<and> get_pixel 0 0 LOWER s = BLACK")
  case True
  then have m: "grain_moved (7, 7, UPPER) (0, 0, LOWER) s (drop_grain s)"
    using drop_grain_effect(2) [OF assms] by simp
  show ?thesis
    by (rule total_grains_moved [OF m]) (use True in \<open>simp_all add: UPPER_def LOWER_def\<close>)
next
  case False
  then have "drop_grain s = s" using drop_grain_effect(3) [OF assms] by blast
  then show ?thesis by simp
qed

lemma total_grains_same:
  assumes "same_except [(x, y, b)] s s'" "get_pixel x y b s \<noteq> BLACK" "get_pixel x y b s' \<noteq> BLACK"
  shows "total_grains s' = total_grains s"
  unfolding total_grains_def
proof (rule filter_count_same, rule ballI)
  fix z
  assume z: "z \<in> set bulb_cells"
  obtain x' y' b' where zz: "z = (x', y', b')" by (cases z) auto
  show "(case z of (x, y, b) \<Rightarrow> get_pixel x y b s' \<noteq> BLACK) =
        (case z of (x, y, b) \<Rightarrow> get_pixel x y b s \<noteq> BLACK)"
  proof (cases "z = (x, y, b)")
    case True
    then show ?thesis using assms(2,3) by simp
  next
    case False
    then show ?thesis
      using assms(1) z unfolding zz same_except_iff set_bulb_cells by auto
  qed
qed

lemma total_grains_simulate:
  assumes "pix_inv s" "bulb = UPPER \<or> bulb = LOWER"
  shows "total_grains (snd (simulate_grain x0 y0 bulb s)) = total_grains s"
proof -
  define x y where "x = x0 AND 7" and "y = y0 AND 7"
  define s' where "s' = snd (simulate_grain x0 y0 bulb s)"
  define a where "a = (if side s \<noteq> 0 then (x + 1, y) else (x, y + 1))"
  define b where "b = (if side s \<noteq> 0 then (x, y + 1) else (x + 1, y))"
  note eff = sg_effect [OF assms, of x0 y0, folded x_def y_def, folded s'_def a_def b_def]
  have xr: "x < 8" "y < 8" unfolding x_def y_def by (rule mask7_lt8)+
  have mv: "total_grains s' = total_grains s"
    if "grain_moved (x, y, bulb) (x2, y2, bulb) s s'" "get_pixel x y bulb s \<noteq> BLACK"
      "get_pixel x2 y2 bulb s = BLACK" "(x2, y2) \<noteq> (x, y)" for x2 y2
  proof -
    from that(3) have "x2 < 8" "y2 < 8" using get_pixel_BLACK_range by blast+
    with that xr assms(2) show ?thesis
      by (intro total_grains_moved [OF that(1)]) auto
  qed
  have na: "(fst a, snd a) \<noteq> (x, y)" and nb: "(fst b, snd b) \<noteq> (x, y)"
    by (simp_all add: a_def b_def)
  consider (black) "get_pixel x y bulb s = BLACK"
    | (diag) "get_pixel x y bulb s \<noteq> BLACK" "get_pixel (x + 1) (y + 1) bulb s = BLACK"
    | (first) "get_pixel x y bulb s \<noteq> BLACK" "get_pixel (x + 1) (y + 1) bulb s \<noteq> BLACK"
        "get_pixel (fst a) (snd a) bulb s = BLACK"
    | (second) "get_pixel x y bulb s \<noteq> BLACK" "get_pixel (x + 1) (y + 1) bulb s \<noteq> BLACK"
        "get_pixel (fst a) (snd a) bulb s \<noteq> BLACK" "get_pixel (fst b) (snd b) bulb s = BLACK"
    | (settle) "get_pixel x y bulb s \<noteq> BLACK" "get_pixel (x + 1) (y + 1) bulb s \<noteq> BLACK"
        "get_pixel (fst a) (snd a) bulb s \<noteq> BLACK" "get_pixel (fst b) (snd b) bulb s \<noteq> BLACK"
    by blast
  then have "total_grains s' = total_grains s"
  proof cases
    case black
    from eff(3) [OF black] show ?thesis by (simp add: total_grains_def)
  next
    case diag
    from eff(4) [OF diag] have "grain_moved (x, y, bulb) (x + 1, y + 1, bulb) s s'" by simp
    then show ?thesis using diag by (rule mv) simp
  next
    case first
    from eff(6) [OF first] have "grain_moved (x, y, bulb) (fst a, snd a, bulb) s s'" by simp
    then show ?thesis using first(1,3) na by (rule mv)
  next
    case second
    from eff(7) [OF second] have "grain_moved (x, y, bulb) (fst b, snd b, bulb) s s'" by simp
    then show ?thesis using second(1,4) nb by (rule mv)
  next
    case settle
    from eff(8) [OF settle]
    have "get_pixel x y bulb s' = YELLOW" "same_except [(x, y, bulb)] s s'" by simp_all
    then show ?thesis using settle(1)
      by (intro total_grains_same [of x y bulb]) (simp_all add: color_consts)
  qed
  then show ?thesis by (simp add: s'_def)
qed

lemma run_ticks_conserves:
  assumes "pix_inv s" "list_all tick_ok ts"
  shows "pix_inv (run_ticks ts s) \<and> total_grains (run_ticks ts s) = total_grains s"
  using assms
proof (induction ts arbitrary: s)
  case Nil
  then show ?case by simp
next
  case (Cons t ts)
  show ?case
  proof (cases t)
    case Drop
    from Cons.prems have "list_all tick_ok ts" by simp
    from Cons.IH [OF drop_grain_effect(1) [OF Cons.prems(1)] this]
    show ?thesis using Drop total_grains_drop [OF Cons.prems(1)] by simp
  next
    case (Simulate x y bulb)
    from Cons.prems Simulate have ok: "bulb = UPPER \<or> bulb = LOWER" "list_all tick_ok ts" by simp_all
    from Cons.IH [OF sg_effect(1) [OF Cons.prems(1) ok(1)] ok(2)]
    show ?thesis using Simulate total_grains_simulate [OF Cons.prems(1) ok(1)] by simp
  qed
qed


lemma distinct_screen_cells: "distinct screen_cells"
  by (simp add: screen_cells_def coords_def)

lemma set_screen_cells: "set screen_cells = physical_grid"
proof
  show "set screen_cells \<subseteq> physical_grid"
    by (simp add: screen_cells_def coords_def physical_grid_def dm_consts)
  show "physical_grid \<subseteq> set screen_cells"
  proof
    fix p :: "u8 \<times> u8"
    assume "p \<in> physical_grid"
    then have "fst p < 16" "snd p < 8" by (auto simp: physical_grid_def dm_consts)
    from u8_lt16_cases [OF this(1)] u8_lt8_cases [OF this(2)]
    have "(fst p, snd p) \<in> set screen_cells"
      unfolding screen_cells_def coords_def by (elim disjE) simp_all
    then show "p \<in> set screen_cells" by simp
  qed
qed

lemma set_bulb_cells_grid: "set bulb_cells = logical_grid"
  by (simp add: set_bulb_cells logical_grid_def)

lemma lit_pixels_total:
  assumes "pix_inv s"
  shows "lit_pixels s = total_grains s"
proof -
  from assms have g: "gravity s = DOWN \<or> gravity s = UP" by (simp add: pix_inv_def)
  define f where "f = (\<lambda>(x, y, bulb). orient (gravity s) x y bulb)"
  define Q where "Q = (\<lambda>(x, y). getPixel x y VISIBLE (dm s) \<noteq> BLACK)"
  have bij: "bij_betw f logical_grid physical_grid"
    unfolding f_def by (rule orient_bij [OF g])
  have gp: "(case c of (x, y, b) \<Rightarrow> get_pixel x y b s \<noteq> BLACK) = Q (f c)" if "c \<in> logical_grid" for c
  proof -
    obtain x y b where c: "c = (x, y, b)" by (cases c) auto
    with that have "x < 8" "y < 8" by (simp_all add: logical_grid_def)
    then show ?thesis
      unfolding c f_def Q_def
      by (simp add: get_pixel_orient u8_lt8_facts(8) split_def)
  qed
  have "lit_pixels s = card {p \<in> physical_grid. Q p}"
    unfolding lit_pixels_def Q_def [symmetric]
    by (simp add: distinct_length_filter [OF distinct_screen_cells] set_screen_cells Int_def conj_commute)
  also have "{p \<in> physical_grid. Q p} = f ` {c \<in> logical_grid. Q (f c)}"
  proof
    show "{p \<in> physical_grid. Q p} \<subseteq> f ` {c \<in> logical_grid. Q (f c)}"
    proof
      fix p assume "p \<in> {p \<in> physical_grid. Q p}"
      then have p: "p \<in> physical_grid" "Q p" by simp_all
      from bij have "f ` logical_grid = physical_grid" by (simp add: bij_betw_def)
      with p(1) have "p \<in> f ` logical_grid" by simp
      then obtain c where "c \<in> logical_grid" "f c = p" by (rule imageE) simp
      with p show "p \<in> f ` {c \<in> logical_grid. Q (f c)}" by auto
    qed
    show "f ` {c \<in> logical_grid. Q (f c)} \<subseteq> {p \<in> physical_grid. Q p}"
      using bij by (auto simp: bij_betw_def)
  qed
  also have "card (f ` {c \<in> logical_grid. Q (f c)}) = card {c \<in> logical_grid. Q (f c)}"
  proof (rule card_image)
    have "inj_on f logical_grid" using bij by (simp add: bij_betw_def)
    then show "inj_on f {c \<in> logical_grid. Q (f c)}"
      by (rule inj_on_subset) auto
  qed
  also have "{c \<in> logical_grid. Q (f c)} =
      {c \<in> set bulb_cells. case c of (x, y, b) \<Rightarrow> get_pixel x y b s \<noteq> BLACK}"
    using gp by (auto simp: set_bulb_cells_grid)
  also have "card \<dots> = total_grains s"
    unfolding total_grains_def
    by (simp add: distinct_length_filter [OF distinct_bulb_cells] Int_def conj_commute)
  finally show ?thesis .
qed


section \<open>What the simulation leaves alone\<close>

lemma only_display_refl: "only_display s s"
proof -
  have "s = s\<lparr>timer := timer s, dm := dm s\<rparr>" by simp
  then show ?thesis unfolding only_display_def by blast
qed

lemma only_display_trans: "only_display s s1 \<Longrightarrow> only_display s1 s2 \<Longrightarrow> only_display s s2"
  unfolding only_display_def by (elim exE) (simp, blast)

lemma only_display_set_pixel: "only_display s (set_pixel x y bulb c s)"
proof (cases "7 < x \<or> 7 < y")
  case True
  then show ?thesis by (simp add: set_pixel_out_of_range only_display_refl)
next
  case False
  then have "set_pixel x y bulb c s = s\<lparr>timer := timer s, dm := dm (set_pixel x y bulb c s)\<rparr>"
    by (simp add: set_pixel_orient)
  then show ?thesis unfolding only_display_def by blast
qed

lemma only_display_wait: "only_display s (wait ms s)"
proof -
  obtain b c where "wait ms s = clocked (timer s + wait_ticks ms) b c s"
    using wait_clocked by blast
  then show ?thesis unfolding only_display_def clocked_def by blast
qed

lemma only_display_clear: "only_display s (s\<lparr>dm := clearScreen (dm s)\<rparr>)"
proof -
  have "s\<lparr>dm := clearScreen (dm s)\<rparr> = s\<lparr>timer := timer s, dm := clearScreen (dm s)\<rparr>" by simp
  then show ?thesis unfolding only_display_def by blast
qed

lemma only_display_fields:
  assumes "only_display s s'"
  shows "gravity s' = gravity s" "sensor s' = sensor s" "sim_speed s' = sim_speed s"
    "rnd s' = rnd s" "side s' = side s" "static_counter s' = static_counter s"
    "mode s' = mode s" "drop_cycle s' = drop_cycle s" "last_drop s' = last_drop s"
    "minute s' = minute s" "quarter s' = quarter s" "animation s' = animation s"
    "text_screen s' = text_screen s" "ee_time_setting s' = ee_time_setting s"
  using assms unfolding only_display_def by auto

lemma only_display_fill_x: "only_display s (fill_bulb_x x y bulb s)"
proof (induction x y bulb s rule: fill_bulb_x.induct)
  case (1 x y bulb s)
  show ?case
  proof (cases "x < 8")
    case True
    define s1 where "s1 = (if 3 < x + y then wait 8 (set_pixel x y bulb YELLOW s) else s)"
    have e: "fill_bulb_x x y bulb s = fill_bulb_x (x + 1) y bulb s1"
      unfolding s1_def by (subst fill_bulb_x.simps) (simp only: True if_True)
    have "only_display s s1"
      unfolding s1_def
      using only_display_trans [OF only_display_set_pixel only_display_wait] only_display_refl
      by simp
    moreover have "only_display s1 (fill_bulb_x (x + 1) y bulb s1)"
      unfolding s1_def by (rule 1 [OF True])
    ultimately show ?thesis unfolding e by (rule only_display_trans)
  next
    case False
    then have "fill_bulb_x x y bulb s = s"
      by (subst fill_bulb_x.simps) (simp only: if_False)
    then show ?thesis by (simp add: only_display_refl)
  qed
qed

lemma only_display_fill_y: "only_display s (fill_bulb_y y bulb s)"
proof (induction y bulb s rule: fill_bulb_y.induct)
  case (1 y bulb s)
  show ?case
  proof (cases "y < 8")
    case True
    have e: "fill_bulb_y y bulb s = fill_bulb_y (y + 1) bulb (fill_bulb_x 0 y bulb s)"
      by (subst fill_bulb_y.simps) (simp only: True if_True)
    show ?thesis
      unfolding e by (rule only_display_trans [OF only_display_fill_x 1 [OF True]])
  next
    case False
    then have "fill_bulb_y y bulb s = s"
      by (subst fill_bulb_y.simps) (simp only: if_False)
    then show ?thesis by (simp add: only_display_refl)
  qed
qed

lemma only_display_reset: "only_display s (reset_hour_glass s)"
  unfolding reset_hour_glass_def fill_bulb_def
  by (rule only_display_trans [OF only_display_clear only_display_fill_y])

lemmas reset_fields [simp] = only_display_fields [OF only_display_reset]

lemma only_display_drop: "only_display s (drop_grain s)"
  unfolding drop_grain_def
  using only_display_trans [OF only_display_set_pixel only_display_set_pixel] only_display_refl
  by simp

lemmas drop_grain_fields [simp] = only_display_fields [OF only_display_drop]

lemma drop_grain_timer [simp]: "timer (drop_grain s) = timer s"
  by (simp add: drop_grain_def)

lemma only_display_moved: "only_display s (moved_grain x1 y1 x2 y2 bulb s)"
proof -
  have a: "only_display s (wait (sim_speed s) (set_pixel x1 y1 bulb BLACK s))"
    using only_display_trans [OF only_display_set_pixel only_display_wait] .
  have b: "only_display (wait (sim_speed s) (set_pixel x1 y1 bulb BLACK s))
      (wait (sim_speed s) (set_pixel x2 y2 bulb ORANGE (wait (sim_speed s) (set_pixel x1 y1 bulb BLACK s))))"
    using only_display_trans [OF only_display_set_pixel only_display_wait] .
  show ?thesis unfolding moved_grain_def by (rule only_display_trans [OF a b])
qed

lemmas moved_grain_fields [simp] = only_display_fields [OF only_display_moved]

lemma moved_grain_timer [simp]:
  "timer (moved_grain x1 y1 x2 y2 bulb s) = timer s + wait_ticks (sim_speed s) + wait_ticks (sim_speed s)"
  by (simp add: moved_grain_def)

lemma pix_inv_boot: "pix_inv boot_state" "pix_inv (boot_state\<lparr>mode := RUN\<rparr>)"
  by (simp_all add: boot_state_def pix_inv_def init_fields hourglass_static_def DotMatrix_static_def DOWN_def)

lemma start_state_fields [simp]:
  "gravity start_state = DOWN" "sim_speed start_state = 10" "rnd start_state = 120"
  "side start_state = 0" "static_counter start_state = 0" "mode start_state = RUN"
  "drop_cycle start_state = 1389" "last_drop start_state = timer start_state"
  by (simp_all add: start_state_def Let_def boot_state_def hourglass_static_def DOWN_def
      SIM_SPEED_def RANDOM_SEED_def)

lemma pix_inv_start: "pix_inv start_state"
  unfolding start_state_def Let_def
  using reset_hour_glass_get(1) [OF pix_inv_boot(2)] by (simp add: pix_inv_def)


lemma get_pixel_cong_state:
  "gravity s' = gravity s \<Longrightarrow> dm s' = dm s \<Longrightarrow> get_pixel x y b s' = get_pixel x y b s"
  by (simp add: get_pixel_def)

lemma pix_inv_cong_state:
  "gravity s' = gravity s \<Longrightarrow> dm s' = dm s \<Longrightarrow> pix_inv s' = pix_inv s"
  by (simp add: pix_inv_def)

lemma start_state_pixels:
  "x < 8 \<Longrightarrow> y < 8 \<Longrightarrow> get_pixel x y UPPER start_state = (if 3 < x + y then YELLOW else BLACK)"
  "x < 8 \<Longrightarrow> y < 8 \<Longrightarrow> get_pixel x y LOWER start_state = BLACK"
proof -
  have e: "get_pixel x y b start_state = get_pixel x y b (reset_hour_glass (boot_state\<lparr>mode := RUN\<rparr>))"
    for b
    by (rule get_pixel_cong_state) (simp_all add: start_state_def Let_def)
  show "x < 8 \<Longrightarrow> y < 8 \<Longrightarrow> get_pixel x y UPPER start_state = (if 3 < x + y then YELLOW else BLACK)"
    "x < 8 \<Longrightarrow> y < 8 \<Longrightarrow> get_pixel x y LOWER start_state = BLACK"
    unfolding e using reset_hour_glass_get(2,3) [OF pix_inv_boot(2)] by blast+
qed


section \<open>Grain conservation\<close>

text \<open>
  C9. After \<open>reset_hour_glass\<close> (the screen cleared, then \<open>fill_bulb(UPPER)\<close>) the upper
  bulb holds 54 grains, exactly the cells with \<open>x + y > 3\<close>, and the lower bulb none; 54
  pixels of the screen are lit. After any sequence of calls of \<open>drop\<close> and of
  \<open>simulate_grain\<close> (with a bulb argument \<open>UPPER\<close> or \<open>LOWER\<close>) the number of lit
  pixels is not larger: it is still 54.
\<close>

theorem grain_conservation:
  assumes "pix_inv s" "list_all tick_ok ts"
  shows "grains UPPER (reset_hour_glass s) = 54 \<and> grains LOWER (reset_hour_glass s) = 0 \<and>
         (\<forall>x y. x < 8 \<and> y < 8 \<longrightarrow>
            (get_pixel x y UPPER (reset_hour_glass s) \<noteq> BLACK) = (3 < x + y)) \<and>
         lit_pixels (reset_hour_glass s) = 54 \<and>
         lit_pixels (run_ticks ts (reset_hour_glass s)) \<le> lit_pixels (reset_hour_glass s) \<and>
         lit_pixels (run_ticks ts (reset_hour_glass s)) = 54"
proof -
  note r = reset_hour_glass_get [OF assms(1)]
  note g = reset_hour_glass_grains [OF assms(1)]
  from run_ticks_conserves [OF r(1) assms(2)]
  have c: "pix_inv (run_ticks ts (reset_hour_glass s))"
    "total_grains (run_ticks ts (reset_hour_glass s)) = total_grains (reset_hour_glass s)"
    by simp_all
  have t: "total_grains (reset_hour_glass s) = 54"
    by (simp add: total_grains_bulbs g)
  have l0: "lit_pixels (reset_hour_glass s) = 54"
    by (simp add: lit_pixels_total [OF r(1)] t)
  have l1: "lit_pixels (run_ticks ts (reset_hour_glass s)) = 54"
    by (simp add: lit_pixels_total [OF c(1)] c(2) t)
  have "(get_pixel x y UPPER (reset_hour_glass s) \<noteq> BLACK) = (3 < x + y)" if "x < 8 \<and> y < 8" for x y
    using that r(2) [of x y] by (simp add: color_consts)
  with g l0 l1 show ?thesis by simp
qed

theorem grain_conservation_witness:
  "pix_inv boot_state \<and>
   list_all tick_ok [Drop, Simulate 12 12 UPPER, Simulate 0 0 LOWER, Drop, Simulate 13 4 UPPER] \<and>
   grains UPPER (reset_hour_glass boot_state) = 54 \<and>
   grains LOWER (reset_hour_glass boot_state) = 0 \<and>
   lit_pixels (reset_hour_glass boot_state) = 54 \<and>
   lit_pixels (run_ticks [Drop, Simulate 12 12 UPPER, Simulate 0 0 LOWER, Drop, Simulate 13 4 UPPER]
      (reset_hour_glass boot_state)) \<le> lit_pixels (reset_hour_glass boot_state)"
proof -
  have t: "list_all tick_ok [Drop, Simulate 12 12 UPPER, Simulate 0 0 LOWER, Drop, Simulate 13 4 UPPER]"
    by simp
  from grain_conservation [OF pix_inv_boot(1) t] pix_inv_boot(1) t
  show ?thesis by blast
qed


section \<open>The pseudo-random number generator\<close>

lemma lfsr_orbit_numeral:
  "lfsr_orbit (numeral k) v = v # lfsr_orbit (pred_numeral k) (lfsr_nat v)"
  by (simp add: numeral_eq_Suc)

lemma unat_lfsr: "unat (lfsr v) = lfsr_nat (unat v)"
proof -
  have b: "(v AND 0x80 \<noteq> 0) = bit v 7"
    using and_exp_eq_0_iff_not_bit [of v 7] by simp
  have "bit v 7 = bit (unat v) 7" by (simp add: bit_unsigned_iff)
  also have "\<dots> = odd (unat v div 128)" by (simp add: bit_iff_odd)
  also have "\<dots> = (128 \<le> unat v)"
  proof -
    have "unat v < 256" using unsigned_less [of v] by simp
    then have "unat v div 128 = (if 128 \<le> unat v then 1 else 0)"
      by (auto simp: div_nat_eqI)
    then show ?thesis by simp
  qed
  finally have c: "(v AND 0x80 \<noteq> 0) = (128 \<le> unat v)" using b by simp
  have p: "unat (v * 2) = (2 * unat v) mod 256"
    by (simp add: unat_word_ariths mult.commute)
  show ?thesis
    by (simp add: lfsr_def lfsr_nat_def c p unsigned_xor_eq POLYNOMIAL_def)
qed

lemma unat_lfsr_funpow: "unat ((lfsr ^^ n) v) = (lfsr_nat ^^ n) (unat v)"
  by (induction n) (simp_all add: unat_lfsr)

lemma lfsr_orbit_length: "length (lfsr_orbit n v) = n"
  by (induction n arbitrary: v) simp_all

lemma lfsr_orbit_nth: "k < n \<Longrightarrow> lfsr_orbit n v ! k = (lfsr_nat ^^ k) v"
proof (induction n arbitrary: v k)
  case 0
  then show ?case by simp
next
  case (Suc n)
  show ?case
  proof (cases k)
    case 0
    then show ?thesis by simp
  next
    case (Suc j)
    with Suc.prems have "j < n" by simp
    with Suc.IH [of j "lfsr_nat v"] Suc show ?thesis
      by (simp add: funpow_swap1)
  qed
qed

lemma lfsr_orbit_255:
  "lfsr_orbit 255 1 =
     [1, 2, 4, 8, 16, 32, 64, 128, 29, 58, 116, 232, 205, 135, 19, 38, 76, 152, 45, 90, 180,
      117, 234, 201, 143, 3, 6, 12, 24, 48, 96, 192, 157, 39, 78, 156, 37, 74, 148, 53, 106,
      212, 181, 119, 238, 193, 159, 35, 70, 140, 5, 10, 20, 40, 80, 160, 93, 186, 105, 210,
      185, 111, 222, 161, 95, 190, 97, 194, 153, 47, 94, 188, 101, 202, 137, 15, 30, 60, 120,
      240, 253, 231, 211, 187, 107, 214, 177, 127, 254, 225, 223, 163, 91, 182, 113, 226, 217,
      175, 67, 134, 17, 34, 68, 136, 13, 26, 52, 104, 208, 189, 103, 206, 129, 31, 62, 124,
      248, 237, 199, 147, 59, 118, 236, 197, 151, 51, 102, 204, 133, 23, 46, 92, 184, 109,
      218, 169, 79, 158, 33, 66, 132, 21, 42, 84, 168, 77, 154, 41, 82, 164, 85, 170, 73, 146,
      57, 114, 228, 213, 183, 115, 230, 209, 191, 99, 198, 145, 63, 126, 252, 229, 215, 179,
      123, 246, 241, 255, 227, 219, 171, 75, 150, 49, 98, 196, 149, 55, 110, 220, 165, 87,
      174, 65, 130, 25, 50, 100, 200, 141, 7, 14, 28, 56, 112, 224, 221, 167, 83, 166, 81,
      162, 89, 178, 121, 242, 249, 239, 195, 155, 43, 86, 172, 69, 138, 9, 18, 36, 72, 144,
      61, 122, 244, 245, 247, 243, 251, 235, 203, 139, 11, 22, 44, 88, 176, 125, 250, 233,
      207, 131, 27, 54, 108, 216, 173, 71, 142]"
  by (simp add: lfsr_orbit_numeral lfsr_nat_def)

lemma lfsr_orbit_distinct: "distinct (lfsr_orbit 255 1)"
  unfolding lfsr_orbit_255 by simp

lemma lfsr_orbit_range: "\<forall>x \<in> set (lfsr_orbit 255 1). 0 < x \<and> x < 256"
  unfolding lfsr_orbit_255 by simp

lemma lfsr_nat_255: "(lfsr_nat ^^ 255) 1 = 1"
proof -
  have a: "(lfsr_nat ^^ 254) 1 = lfsr_orbit 255 1 ! 254"
    using lfsr_orbit_nth [of 254 255 1] by simp
  have b: "lfsr_orbit 255 1 ! 254 = 142"
    unfolding lfsr_orbit_255 by simp
  have e: "(255 :: nat) = Suc 254" by simp
  have "(lfsr_nat ^^ 255) 1 = lfsr_nat ((lfsr_nat ^^ 254) 1)"
    by (subst e) (simp only: funpow.simps o_apply)
  also have "\<dots> = lfsr_nat 142" by (simp only: a b)
  also have "\<dots> = 1" by (simp add: lfsr_nat_def)
  finally show ?thesis .
qed

lemma lfsr_pow_add: "(lfsr_nat ^^ n) (lfsr_pow k) = lfsr_pow (n + k)"
  by (simp add: lfsr_pow_def funpow_add)

lemma lfsr_pow_period: "lfsr_pow (k + 255) = lfsr_pow k"
  by (simp only: lfsr_pow_def funpow_add o_apply lfsr_nat_255)

lemma lfsr_pow_mod: "lfsr_pow k = lfsr_pow (k mod 255)"
proof (induction k rule: less_induct)
  case (less k)
  show ?case
  proof (cases "k < 255")
    case True
    then show ?thesis by simp
  next
    case False
    then have k: "k - 255 + 255 = k" by simp
    have "lfsr_pow (k - 255 + 255) = lfsr_pow (k - 255)"
      by (rule lfsr_pow_period)
    then have "lfsr_pow k = lfsr_pow (k - 255)"
      by (simp only: k)
    also have "\<dots> = lfsr_pow ((k - 255) mod 255)"
      using less.IH [of "k - 255"] False by simp
    also have "(k - 255) mod 255 = k mod 255"
      using False by (simp add: le_mod_geq)
    finally show ?thesis .
  qed
qed

lemma lfsr_pow_orbit: "k < 255 \<Longrightarrow> lfsr_pow k = lfsr_orbit 255 1 ! k"
  by (simp add: lfsr_pow_def lfsr_orbit_nth)

lemma lfsr_pow_inj: "i < 255 \<Longrightarrow> j < 255 \<Longrightarrow> lfsr_pow i = lfsr_pow j \<Longrightarrow> i = j"
  using lfsr_orbit_distinct lfsr_orbit_length [of 255 1]
  by (simp add: lfsr_pow_orbit nth_eq_iff_index_eq)

lemma lfsr_pow_range: "0 < lfsr_pow k \<and> lfsr_pow k < 256"
proof -
  have "k mod 255 < 255" by simp
  then have "lfsr_orbit 255 1 ! (k mod 255) \<in> set (lfsr_orbit 255 1)"
    by (simp add: lfsr_orbit_length)
  then show ?thesis
    using lfsr_orbit_range lfsr_pow_mod [of k] lfsr_pow_orbit [of "k mod 255"] by simp
qed

lemma lfsr_pow_surj:
  assumes "0 < m" "m < 256"
  shows "\<exists>k < 255. lfsr_pow k = m"
proof -
  define N :: nat where "N = 255"
  have r: "\<And>k. 1 \<le> lfsr_pow k \<and> lfsr_pow k \<le> N"
    using lfsr_pow_range unfolding N_def by (simp add: Suc_le_eq less_Suc_eq_le [symmetric])
  have i: "\<And>i j. i < N \<Longrightarrow> j < N \<Longrightarrow> lfsr_pow i = lfsr_pow j \<Longrightarrow> i = j"
    unfolding N_def by (rule lfsr_pow_inj)
  have m: "1 \<le> m \<and> m \<le> N"
    using assms unfolding N_def by simp
  have inj: "inj_on lfsr_pow {..<N}"
    by (rule inj_onI) (auto dest: i)
  have sub: "lfsr_pow ` {..<N} \<subseteq> {1..N}"
    using r by auto
  have "card (lfsr_pow ` {..<N}) = N"
    using inj by (simp add: card_image)
  then have "lfsr_pow ` {..<N} = {1..N}"
    using sub by (intro card_subset_eq) simp_all
  moreover have "m \<in> {1..N}" using m by simp
  ultimately have "m \<in> lfsr_pow ` {..<N}" by (simp only:)
  then have "\<exists>k < N. lfsr_pow k = m" by (auto simp: image_iff)
  then show ?thesis unfolding N_def .
qed

lemma lfsr_pow_mod_neq:
  assumes "i < j" "j < 255"
  shows "lfsr_pow (i + c) \<noteq> lfsr_pow (j + c)"
proof
  assume eq: "lfsr_pow (i + c) = lfsr_pow (j + c)"
  define N :: nat where "N = 255"
  have N: "0 < N" "j < N" unfolding N_def using assms by simp_all
  have a: "lfsr_pow ((i + c) mod N) = lfsr_pow (i + c)"
    and b: "lfsr_pow ((j + c) mod N) = lfsr_pow (j + c)"
    unfolding N_def by (rule lfsr_pow_mod [symmetric])+
  have lt: "(i + c) mod N < N" "(j + c) mod N < N"
    using N(1) by simp_all
  have "lfsr_pow ((i + c) mod N) = lfsr_pow ((j + c) mod N)"
    unfolding a b by (rule eq)
  with lt have "(i + c) mod N = (j + c) mod N"
    unfolding N_def by (rule lfsr_pow_inj)
  then have "(j + c) mod N = (i + c) mod N" by (rule sym)
  moreover have "i + c \<le> j + c" using assms(1) by simp
  ultimately have "N dvd (j + c) - (i + c)"
    by (simp only: mod_eq_dvd_iff_nat)
  moreover have "(j + c) - (i + c) = j - i" by simp
  ultimately have "N dvd j - i" by (simp only:)
  moreover have "0 < j - i" using assms(1) by simp
  ultimately have "N \<le> j - i" by (rule dvd_imp_le)
  with N(2) show False by simp
qed

lemma lfsr_funpow_word:
  assumes "S \<noteq> 0"
  obtains k where "k < 255" and "\<And>n. unat ((lfsr ^^ n) S) = lfsr_pow (n + k)"
proof -
  have "0 < unat S" using assms by (simp add: unat_gt_0)
  moreover have "unat S < 256" using unsigned_less [of S] by simp
  ultimately obtain k where k: "k < 255" "lfsr_pow k = unat S"
    using lfsr_pow_surj by blast
  have "\<And>n. unat ((lfsr ^^ n) S) = lfsr_pow (n + k)"
    by (simp add: unat_lfsr_funpow flip: k(2) lfsr_pow_add)
  with k(1) show ?thesis by (rule that)
qed

lemma lfsr_nonzero: "S \<noteq> 0 \<Longrightarrow> (lfsr ^^ n) S \<noteq> 0"
proof -
  assume "S \<noteq> 0"
  then obtain k where "\<And>n. unat ((lfsr ^^ n) S) = lfsr_pow (n + k)"
    using lfsr_funpow_word by blast
  then have "0 < unat ((lfsr ^^ n) S)" using lfsr_pow_range by (simp only:)
  then show ?thesis by (simp add: unat_gt_0)
qed

lemma lfsr_distinct: "S \<noteq> 0 \<Longrightarrow> i < j \<Longrightarrow> j < 255 \<Longrightarrow> (lfsr ^^ Suc i) S \<noteq> (lfsr ^^ Suc j) S"
proof -
  assume "S \<noteq> 0" and ij: "i < j" "j < 255"
  then obtain k where k: "\<And>n. unat ((lfsr ^^ n) S) = lfsr_pow (n + k)"
    using lfsr_funpow_word by blast
  have "lfsr_pow (Suc i + k) \<noteq> lfsr_pow (Suc j + k)"
    using lfsr_pow_mod_neq [OF ij, of "Suc k"] by simp
  then have "unat ((lfsr ^^ Suc i) S) \<noteq> unat ((lfsr ^^ Suc j) S)"
    by (simp only: k not_False_eq_True)
  then show ?thesis by (simp only: word_unat_eq_iff not_False_eq_True)
qed

lemma lfsr_period: "S \<noteq> 0 \<Longrightarrow> (lfsr ^^ 255) S = S"
proof -
  assume "S \<noteq> 0"
  then obtain k where k: "\<And>n. unat ((lfsr ^^ n) S) = lfsr_pow (n + k)"
    using lfsr_funpow_word by blast
  have "unat ((lfsr ^^ 255) S) = lfsr_pow (k + 255)" by (simp only: k add.commute)
  also have "\<dots> = lfsr_pow (0 + k)" by (simp only: lfsr_pow_period add_0)
  also have "\<dots> = unat ((lfsr ^^ 0) S)" by (simp only: k)
  also have "\<dots> = unat S" by simp
  finally show ?thesis by (simp only: word_unat_eq_iff)
qed

lemma random_eq:
  "random seed s =
     (lfsr (if seed \<noteq> 0 then seed else rnd s), s\<lparr>rnd := lfsr (if seed \<noteq> 0 then seed else rnd s)\<rparr>)"
  by (simp add: random_def lfsr_def Let_def)

lemma random_outputs_length: "length (random_outputs n seed s) = n"
  by (induction n arbitrary: seed s) (simp_all add: random_eq)

lemma random_outputs_nth:
  "k < n \<Longrightarrow> random_outputs n seed s ! k = (lfsr ^^ Suc k) (if seed \<noteq> 0 then seed else rnd s)"
proof (induction n arbitrary: seed s k)
  case 0
  then show ?case by simp
next
  case (Suc n)
  show ?case
  proof (cases k)
    case 0
    then show ?thesis by (simp add: random_eq)
  next
    case (Suc j)
    with Suc.prems have "j < n" by simp
    from Suc.IH [OF this, of 0 "s\<lparr>rnd := lfsr (if seed \<noteq> 0 then seed else rnd s)\<rparr>"] Suc
    show ?thesis
      by (simp add: random_eq funpow_swap1)
  qed
qed

text \<open>
  C4 (as amended). For every nonzero seed \<open>S\<close> passed to \<open>random\<close>, the value returned
  and every value returned by later calls \<open>random(0)\<close> is nonzero; the first 255 returned
  values are pairwise distinct; the returned value number 255 is \<open>S\<close> again, and number
  256 is the first returned value once more. (In \<open>random_outputs n S s\<close> the returned
  value number \<open>k\<close> is at index \<open>k - 1\<close>.)
\<close>

theorem random_outputs_period:
  assumes "S \<noteq> 0"
  shows "(\<forall>n. \<forall>v \<in> set (random_outputs n S s). v \<noteq> 0) \<and>
         distinct (random_outputs 255 S s) \<and>
         random_outputs 256 S s ! 254 = S \<and>
         random_outputs 256 S s ! 255 = random_outputs 256 S s ! 0"
proof (intro conjI allI ballI)
  fix n v
  assume "v \<in> set (random_outputs n S s)"
  then obtain k where "k < n" "v = random_outputs n S s ! k"
    by (auto simp: in_set_conv_nth random_outputs_length)
  then show "v \<noteq> 0"
    using assms lfsr_nonzero [OF assms, of "Suc k"] by (simp only: random_outputs_nth if_True not_False_eq_True)
next
  show "distinct (random_outputs 255 S s)"
    unfolding distinct_conv_nth random_outputs_length
  proof (intro allI impI)
    fix i j :: nat
    assume "i < 255" "j < 255" "i \<noteq> j"
    then have "(lfsr ^^ Suc i) S \<noteq> (lfsr ^^ Suc j) S"
      using lfsr_distinct [OF assms, of i j] lfsr_distinct [OF assms, of j i]
      by (cases "i < j") (auto simp del: funpow.simps)
    then show "random_outputs 255 S s ! i \<noteq> random_outputs 255 S s ! j"
      using assms \<open>i < 255\<close> \<open>j < 255\<close> by (simp only: random_outputs_nth if_True not_False_eq_True)
  qed
next
  have "(254 :: nat) < 256" by simp
  then have "random_outputs 256 S s ! 254 = (lfsr ^^ Suc 254) S"
    using assms by (simp only: random_outputs_nth if_True not_False_eq_True)
  also have "Suc 254 = (255 :: nat)" by simp
  finally show "random_outputs 256 S s ! 254 = S"
    by (simp only: lfsr_period [OF assms])
next
  have "(255 :: nat) < 256" "(0 :: nat) < 256" by simp_all
  then have n: "random_outputs 256 S s ! 255 = (lfsr ^^ Suc 255) S"
      "random_outputs 256 S s ! 0 = (lfsr ^^ Suc 0) S"
    using assms by (simp_all only: random_outputs_nth if_True not_False_eq_True)
  note n(1)
  also have "(lfsr ^^ Suc 255) S = lfsr ((lfsr ^^ 255) S)" by (simp only: funpow.simps o_apply)
  also have "\<dots> = lfsr S" by (simp only: lfsr_period [OF assms])
  also have "\<dots> = random_outputs 256 S s ! 0"
    by (simp only: n(2) funpow.simps o_apply id_apply)
  finally show "random_outputs 256 S s ! 255 = random_outputs 256 S s ! 0" .
qed


theorem random_outputs_period_witness:
  "(1 :: u8) \<noteq> 0 \<and>
   0 \<notin> set (random_outputs 300 1 (hourglass_static False)) \<and>
   distinct (random_outputs 255 1 (hourglass_static False)) \<and>
   random_outputs 256 1 (hourglass_static False) ! 254 = 1 \<and>
   random_outputs 256 1 (hourglass_static False) ! 255 =
     random_outputs 256 1 (hourglass_static False) ! 0"
proof -
  have h: "(1 :: u8) \<noteq> 0" by simp
  from random_outputs_period [OF h, of "hourglass_static False"] h
  show ?thesis by blast
qed

text \<open>
  The claim as stated fails: with seed 1 the returned value number 256 is 2, not the seed.
\<close>

theorem random_output_256_counterexample:
  "random_outputs 256 1 (hourglass_static False) ! 255 = 2 \<and>
   random_outputs 256 1 (hourglass_static False) ! 255 \<noteq> 1"
proof -
  have h: "(1 :: u8) \<noteq> 0" by simp
  have "(255 :: nat) < 256" by simp
  then have "random_outputs 256 1 (hourglass_static False) ! 255 = (lfsr ^^ Suc 255) 1"
    using h by (simp only: random_outputs_nth if_True not_False_eq_True)
  also have "\<dots> = lfsr ((lfsr ^^ 255) 1)" by (simp only: funpow.simps o_apply)
  also have "\<dots> = lfsr 1" by (simp only: lfsr_period [OF h])
  also have "\<dots> = 2" by (simp add: lfsr_def POLYNOMIAL_def)
  finally show ?thesis by simp
qed

end
